theory Spec2Isabelle
  imports Complex_Main "HOL-Library.Word" "HOL-Library.Multiset"
begin

unbundle bit_operations_syntax

section \<open>HyperLogLog++ counter of hyperloglogplus.h\<close>

text \<open>
  The development embeds \<^verbatim>\<open>src/hyperloglogplus.h\<close>. Fixed-width integers are words:
  \<^verbatim>\<open>uint8_t\<close>, \<^verbatim>\<open>uint32_t\<close> and \<^verbatim>\<open>uint64_t\<close> are \<open>8 word\<close>, \<open>32 word\<close> and \<open>64 word\<close>;
  \<open>push_bit\<close> is \<^verbatim>\<open><<\<close>, \<open>drop_bit\<close> is \<^verbatim>\<open>>>\<close>, \<open>ucast\<close> is an integer conversion.
  Shift amounts are computed in \<^verbatim>\<open>int\<close> in the source (the operands are promoted), so
  they are natural numbers here, read off the 8-bit precision with \<open>unat\<close>.
\<close>

type_synonym u8 = "8 word"
type_synonym u32 = "32 word"
type_synonym u64 = "64 word"

subsection \<open>Bit utilities\<close>

text \<open>
  \<^verbatim>\<open>__builtin_clz\<close> and \<^verbatim>\<open>__builtin_clzl\<close> are compiler intrinsics: the number of zero
  bits above the most significant set bit. \<open>clz_from n x\<close> scans the bits
  \<open>n - 1, n - 2, \<dots>, 0\<close> of \<open>x\<close> and counts the zeros before the first set bit.
\<close>

primrec clz_from :: "nat \<Rightarrow> 'a::len word \<Rightarrow> nat" where
  "clz_from 0 x = 0"
| "clz_from (Suc n) x = (if bit x n then 0 else Suc (clz_from n x))"

definition builtin_clz :: "'a::len word \<Rightarrow> nat" where
  "builtin_clz x = clz_from LENGTH('a) x"

text \<open>\<^verbatim>\<open>inline uint8_t clz(const uint32_t x)\<close> and \<^verbatim>\<open>inline uint8_t clz(const uint64_t x)\<close>.\<close>

definition clz32 :: "u32 \<Rightarrow> u8" where
  "clz32 x = (if x = 0 then 32 else of_nat (builtin_clz x))"

definition clz64 :: "u64 \<Rightarrow> u8" where
  "clz64 x = (if x = 0 then 64 else of_nat (builtin_clz x))"

text \<open>
  \<^verbatim>\<open>extractBits<uint32_t>(value, hi, lo, shift_left)\<close>: the mask is
  \<^verbatim>\<open>((T(1) << (hi - lo)) - 1) << lo\<close>.
\<close>

definition extractBits :: "u32 \<Rightarrow> u8 \<Rightarrow> u8 \<Rightarrow> bool \<Rightarrow> u32" where
  "extractBits val hi lo shift_left =
     (let bitmask = push_bit (unat lo) (push_bit (unat hi - unat lo) 1 - 1);
          result = val AND bitmask
      in if \<not> shift_left then drop_bit (unat lo) result
         else push_bit (32 - unat hi) result)"

text \<open>\<^verbatim>\<open>extractHighBits(uint64_t bits, uint8_t hi)\<close> is \<^verbatim>\<open>bits >> (64u - hi)\<close>.\<close>

definition extractHighBits64 :: "u64 \<Rightarrow> u8 \<Rightarrow> u64" where
  "extractHighBits64 bits hi = drop_bit (64 - unat hi) bits"

definition extractHighBits32 :: "u32 \<Rightarrow> u8 \<Rightarrow> u32" where
  "extractHighBits32 bits hi = drop_bit (32 - unat hi) bits"

subsection \<open>Index and rank of a hash\<close>

text \<open>
  The private members \<^verbatim>\<open>get_index\<close>, \<^verbatim>\<open>get_trailing_ones\<close> and \<^verbatim>\<open>get_rank\<close>, each in
  its 64-bit and its 32-bit overload. \<^verbatim>\<open>get_index\<close> returns \<^verbatim>\<open>uint32_t\<close> in both.
\<close>

definition get_index64 :: "u64 \<Rightarrow> u8 \<Rightarrow> u32" where
  "get_index64 hash_value prec = ucast (drop_bit (64 - unat prec) hash_value)"

definition get_index32 :: "u32 \<Rightarrow> u8 \<Rightarrow> u32" where
  "get_index32 hash_value prec = drop_bit (32 - unat prec) hash_value"

definition get_trailing_ones :: "u8 \<Rightarrow> 'a::len word" where
  "get_trailing_ones prec = push_bit (unat prec) 1 - 1"

definition get_rank32 :: "u32 \<Rightarrow> u8 \<Rightarrow> u8" where
  "get_rank32 hash_value prec =
     (let rank_bits = push_bit (unat prec) hash_value OR get_trailing_ones prec
      in clz32 rank_bits + 1)"

definition get_rank64 :: "u64 \<Rightarrow> u8 \<Rightarrow> u8" where
  "get_rank64 hash_value prec =
     (let rank_bits = push_bit (unat prec) hash_value OR get_trailing_ones prec
      in clz64 rank_bits + 1)"

subsection \<open>Sparse encoding\<close>

text \<open>
  \<^verbatim>\<open>static const uint8_t pPrime = 25\<close> and
  \<^verbatim>\<open>static const uint32_t mPrime = 1 << (pPrime -1); // 2^pPrime\<close>.
\<close>

definition pPrime :: u8 where
  "pPrime = 25"

definition mPrime :: u32 where
  "mPrime = push_bit (unat pPrime - 1) 1"

text \<open>
  \<^verbatim>\<open>encodeHashIn32Bit\<close> reads the member \<^verbatim>\<open>p\<close>, here the first argument. In
  \<^verbatim>\<open>uint32_t(additional_rank<<1)\<close> the 8-bit rank is promoted before the shift, so
  nothing is cut off at 8 bits.
\<close>

definition encodeHashIn32Bit :: "u8 \<Rightarrow> u64 \<Rightarrow> u32" where
  "encodeHashIn32Bit prec hash_value =
     (let idx = (ucast (push_bit (32 - unat pPrime) (extractHighBits64 hash_value pPrime)) :: u32)
      in if push_bit (unat prec) idx = 0
         then (let additional_rank = get_rank64 hash_value pPrime
               in idx OR push_bit 1 (ucast additional_rank) OR 1)
         else idx)"

record idx_n_rank =
  idx :: u32
  rank :: u8

text \<open>
  \<^verbatim>\<open>getIndexAndRankFromEncodedHash\<close>, again with the member \<^verbatim>\<open>p\<close> as first argument.
  The sum \<^verbatim>\<open>additional_rank + extractBits(encoded_hash_value, 7, 1)\<close> is a 32-bit sum,
  stored into the 8-bit \<^verbatim>\<open>rank_val\<close>.
\<close>

definition getIndexAndRankFromEncodedHash :: "u8 \<Rightarrow> u32 \<Rightarrow> idx_n_rank" where
  "getIndexAndRankFromEncodedHash prec encoded_hash_value =
     (let idx' = get_index32 encoded_hash_value prec
      in if encoded_hash_value AND 1 = 1
         then (let additional_rank = pPrime - prec
               in \<lparr>idx = idx',
                   rank = ucast ((ucast additional_rank :: u32)
                                 + extractBits encoded_hash_value 7 1 False)\<rparr>)
         else \<lparr>idx = idx', rank = get_rank32 encoded_hash_value prec\<rparr>)"


text \<open>The local variable \<^verbatim>\<open>idx\<close> of \<^verbatim>\<open>encodeHashIn32Bit\<close>, named for the proofs.\<close>

definition idx0 :: "u64 \<Rightarrow> u32" where
  "idx0 h = ucast (push_bit (32 - unat pPrime) (extractHighBits64 h pPrime))"

subsection \<open>Mixer\<close>

text \<open>\<^verbatim>\<open>murmurhash3_finalizer\<close>, the default \<^verbatim>\<open>bit_mixer\<close> of the constructor.\<close>

definition murmurhash3_finalizer :: "u64 \<Rightarrow> u64" where
  "murmurhash3_finalizer key0 =
     (let key1 = key0 + 1;
          key2 = key1 XOR drop_bit 33 key1;
          key3 = key2 * 0xff51afd7ed558ccd;
          key4 = key3 XOR drop_bit 33 key3;
          key5 = key4 * 0xc4ceb9fe1a85ec53;
          key6 = key5 XOR drop_bit 33 key5
      in key6)"

subsection \<open>Sparse list\<close>

text \<open>
  \<^verbatim>\<open>typedef unordered_set<uint32_t> SparseListType\<close>: a set of 32-bit words. With this
  type the call \<^verbatim>\<open>insert_hash(sparseList, val, pPrime)\<close> selects the template overload,
  whose body is \<^verbatim>\<open>uset.insert(val)\<close>.
\<close>

definition insert_hash :: "u32 set \<Rightarrow> u32 \<Rightarrow> u8 \<Rightarrow> u32 set" where
  "insert_hash uset val pp = insert val uset"

text \<open>
  The overload for \<^verbatim>\<open>vector<uint32_t>\<close>, not selected by \<^verbatim>\<open>SparseListType\<close>. The
  vector is sorted ascending; \<^verbatim>\<open>std::lower_bound\<close> finds the first element that is not
  less than \<^verbatim>\<open>val\<close>, which the recursion reaches by skipping the smaller ones.
\<close>

fun insert_hash_vec :: "u32 list \<Rightarrow> u32 \<Rightarrow> u8 \<Rightarrow> u32 list" where
  "insert_hash_vec [] val pp = [val]"
| "insert_hash_vec (x # xs) val pp =
     (if x < val then x # insert_hash_vec xs val pp
      else if x \<noteq> val then
        (if extractHighBits32 val pp = extractHighBits32 x pp then
           (if x AND 1 = val AND 1 then
              (if val AND 1 = 1 then (if val > x then val # xs else x # xs)
               else (if val < x then val # xs else x # xs))
            else if val AND 1 = 1 then val # xs
            else x # xs)
         else val # x # xs)
      else x # xs)"

subsection \<open>The counter\<close>

text \<open>
  The data members of \<^verbatim>\<open>class HyperLogLogPlusMinus\<close> (with \<^verbatim>\<open>T_KEY = uint64_t\<close>).
\<close>

record hll =
  M :: "u8 list"
  p :: u8
  m :: u32
  sparse :: bool
  sparseList :: "u32 set"
  bit_mixer :: "u64 \<Rightarrow> u64"

text \<open>
  Exceptions are values: \<open>invalid_argument\<close> is \<^verbatim>\<open>std::invalid_argument\<close> with its message.
  \<open>undefined_conversion\<close> marks a conversion of a \<^verbatim>\<open>double\<close> to \<^verbatim>\<open>uint64_t\<close> whose
  truncated value is not representable, which C++ leaves undefined.
\<close>

datatype failure = invalid_argument string | undefined_conversion

text \<open>The constructor. A sparse counter keeps the default (empty) vector \<^verbatim>\<open>M\<close>.\<close>

definition HyperLogLogPlusMinus :: "u8 \<Rightarrow> bool \<Rightarrow> (u64 \<Rightarrow> u64) \<Rightarrow> failure + hll" where
  "HyperLogLogPlusMinus precision sparse' mixer =
     (if precision > 18 \<or> precision < 4
      then Inl (invalid_argument
        ''precision (number of register = 2^precision) must be between 4 and 18'')
      else Inr \<lparr>M = (if sparse' then [] else replicate (unat (push_bit (unat precision) 1 :: u32)) 0),
                p = precision,
                m = push_bit (unat precision) 1,
                sparse = sparse',
                sparseList = {},
                bit_mixer = mixer\<rparr>)"

text \<open>
  The max-update of one register, the body of the loop of \<^verbatim>\<open>addToRegisters\<close>. Vector
  indexing is unchecked in C++; \<open>get_index32_less\<close> below shows that the index is
  inside a vector of \<open>2 ^ p\<close> registers.
\<close>

definition addToRegisters_step :: "u8 \<Rightarrow> u32 \<Rightarrow> u8 list \<Rightarrow> u8 list" where
  "addToRegisters_step prec encoded_hash_value Ms =
     (let ir = getIndexAndRankFromEncodedHash prec encoded_hash_value
      in if rank ir > Ms ! unat (idx ir) then Ms[unat (idx ir) := rank ir] else Ms)"

text \<open>
  \<^verbatim>\<open>addToRegisters\<close> iterates over the unordered set; the iteration order is not
  specified. The model iterates in ascending order, and \<open>fold_addToRegisters_step_order\<close>
  below shows that every enumeration of the set gives the same registers.
\<close>

definition addToRegisters :: "hll \<Rightarrow> u32 set \<Rightarrow> hll" where
  "addToRegisters this sl =
     (if card sl = 0 then this
      else this\<lparr>M := fold (addToRegisters_step (p this)) (sorted_list_of_set sl) (M this)\<rparr>)"

definition switchToNormalRepresentation :: "hll \<Rightarrow> hll" where
  "switchToNormalRepresentation this =
     (let this1 = this\<lparr>sparse := False, M := replicate (unat (m this)) 0\<rparr>
      in if card (sparseList this1) > 0
         then (addToRegisters this1 (sparseList this1))\<lparr>sparseList := {}\<rparr>
         else this1)"

definition add :: "hll \<Rightarrow> u64 \<Rightarrow> hll" where
  "add this item =
     (let hash_value = bit_mixer this item
      in if sparse this then
           (let encoded_hash_value = encodeHashIn32Bit (p this) hash_value;
                this1 = this\<lparr>sparseList := insert_hash (sparseList this) encoded_hash_value pPrime\<rparr>
            in if card (sparseList this1) > unat (m this1 div 4)
               then switchToNormalRepresentation this1
               else this1)
         else
           (let idx' = get_index64 hash_value (p this);
                rank' = get_rank64 hash_value (p this)
            in if rank' > M this ! unat idx' then this\<lparr>M := (M this)[unat idx' := rank']\<rparr>
               else this))"

text \<open>\<^verbatim>\<open>void add(vector<T_KEY> words)\<close>.\<close>

definition add_many :: "hll \<Rightarrow> u64 list \<Rightarrow> hll" where
  "add_many this words = foldl add this words"

definition reset :: "hll \<Rightarrow> hll" where
  "reset this = this\<lparr>sparse := True, sparseList := {}, M := []\<rparr>"

text \<open>
  \<^verbatim>\<open>merge\<close> returns the exception thrown, if any, and the receiver after the call.
  The argument is a pointer to a constant counter, taken to be a different object.
\<close>

definition merge_registers :: "u8 list \<Rightarrow> u8 list \<Rightarrow> u8 list" where
  "merge_registers Ms other_M =
     fold (\<lambda>i Ms'. if other_M ! i > Ms' ! i then Ms'[i := other_M ! i] else Ms')
       [0..<length other_M] Ms"

definition merge :: "hll \<Rightarrow> hll \<Rightarrow> failure option \<times> hll" where
  "merge this other =
     (if p this \<noteq> p other then (Some (invalid_argument ''precisions must be equal''), this)
      else if sparse this \<and> sparse other then
        (if card (sparseList this) + card (sparseList other) > unat (m this)
         then (None, addToRegisters (switchToNormalRepresentation this) (sparseList other))
         else (None, this\<lparr>sparseList :=
                 fold (\<lambda>val sl. insert_hash sl val pPrime)
                   (sorted_list_of_set (sparseList other)) (sparseList this)\<rparr>))
      else if sparse other then (None, addToRegisters this (sparseList other))
      else
        (let this1 = (if sparse this then switchToNormalRepresentation this else this)
         in (None, this1\<lparr>M := merge_registers (M this1) (M other)\<rparr>)))"

subsection \<open>Doubles\<close>

text \<open>
  A \<^verbatim>\<open>double\<close> is a finite value, an infinity or a NaN. Finite values are idealised as
  reals: the rounding of each operation to 53 bits is not modelled, zero is unsigned and
  taken as \<open>+0\<close>, and overflow to infinity does not occur. The operations follow IEEE 754
  on infinities and NaN. The results below are about inputs where the source computes
  with \<open>0\<close>, \<open>1\<close>, integers below \<open>2 ^ 53\<close> and infinities, on which double arithmetic is
  exact, or they state which real number the source approximates.
\<close>

datatype double = Finite real | PInf | NInf | NaN

fun d_pos :: "double \<Rightarrow> bool" where
  "d_pos (Finite x) = (0 \<le> x)"
| "d_pos PInf = True"
| "d_pos NInf = False"
| "d_pos NaN = True"

definition d_inf :: "bool \<Rightarrow> double" where
  "d_inf positive = (if positive then PInf else NInf)"

fun d_add :: "double \<Rightarrow> double \<Rightarrow> double" where
  "d_add NaN b = NaN"
| "d_add a NaN = NaN"
| "d_add (Finite x) (Finite y) = Finite (x + y)"
| "d_add PInf NInf = NaN"
| "d_add NInf PInf = NaN"
| "d_add PInf b = PInf"
| "d_add NInf b = NInf"
| "d_add (Finite x) b = b"

fun d_neg :: "double \<Rightarrow> double" where
  "d_neg (Finite x) = Finite (- x)"
| "d_neg PInf = NInf"
| "d_neg NInf = PInf"
| "d_neg NaN = NaN"

definition d_sub :: "double \<Rightarrow> double \<Rightarrow> double" where
  "d_sub a b = d_add a (d_neg b)"

fun d_mul :: "double \<Rightarrow> double \<Rightarrow> double" where
  "d_mul NaN b = NaN"
| "d_mul a NaN = NaN"
| "d_mul (Finite x) (Finite y) = Finite (x * y)"
| "d_mul a b = (if a = Finite 0 \<or> b = Finite 0 then NaN else d_inf (d_pos a = d_pos b))"

fun d_div :: "double \<Rightarrow> double \<Rightarrow> double" where
  "d_div NaN b = NaN"
| "d_div a NaN = NaN"
| "d_div (Finite x) (Finite y) =
     (if y = 0 then (if x = 0 then NaN else d_inf (0 < x)) else Finite (x / y))"
| "d_div (Finite x) b = Finite 0"
| "d_div a (Finite y) = d_inf (d_pos a = (0 \<le> y))"
| "d_div a b = NaN"

text \<open>\<^verbatim>\<open>log\<close>, \<^verbatim>\<open>std::sqrt\<close>, \<^verbatim>\<open>std::round\<close> (halves away from zero).\<close>

fun d_log :: "double \<Rightarrow> double" where
  "d_log (Finite x) = (if x < 0 then NaN else if x = 0 then NInf else Finite (ln x))"
| "d_log PInf = PInf"
| "d_log NInf = NaN"
| "d_log NaN = NaN"

fun d_sqrt :: "double \<Rightarrow> double" where
  "d_sqrt (Finite x) = (if x < 0 then NaN else Finite (sqrt x))"
| "d_sqrt PInf = PInf"
| "d_sqrt NInf = NaN"
| "d_sqrt NaN = NaN"

fun d_round :: "double \<Rightarrow> double" where
  "d_round (Finite x) =
     Finite (if 0 \<le> x then of_int \<lfloor>x + 1 / 2\<rfloor> else of_int \<lceil>x - 1 / 2\<rceil>)"
| "d_round a = a"

text \<open>The comparisons \<^verbatim>\<open>==\<close>, \<^verbatim>\<open><\<close> and \<^verbatim>\<open><=\<close>; each is false when an operand is NaN.\<close>

fun d_eq :: "double \<Rightarrow> double \<Rightarrow> bool" where
  "d_eq (Finite x) (Finite y) = (x = y)"
| "d_eq PInf PInf = True"
| "d_eq NInf NInf = True"
| "d_eq a b = False"

fun d_less :: "double \<Rightarrow> double \<Rightarrow> bool" where
  "d_less NaN b = False"
| "d_less a NaN = False"
| "d_less (Finite x) (Finite y) = (x < y)"
| "d_less a NInf = False"
| "d_less PInf b = False"
| "d_less a b = True"

definition d_le :: "double \<Rightarrow> double \<Rightarrow> bool" where
  "d_le a b = (d_less a b \<or> d_eq a b)"

text \<open>Conversions from \<^verbatim>\<open>uint32_t\<close>, \<^verbatim>\<open>size_t\<close>, \<^verbatim>\<open>uint64_t\<close> and \<^verbatim>\<open>int\<close>.\<close>

definition d_of_nat :: "nat \<Rightarrow> double" where
  "d_of_nat n = Finite (real n)"

definition d_of_int :: "int \<Rightarrow> double" where
  "d_of_int k = Finite (of_int k)"

text \<open>
  The conversion of a \<^verbatim>\<open>double\<close> to \<^verbatim>\<open>uint64_t\<close> truncates towards zero, and is
  undefined when the truncated value is outside \<open>0 \<dots> 2 ^ 64 - 1\<close>.
\<close>

fun d_to_u64 :: "double \<Rightarrow> failure + u64" where
  "d_to_u64 (Finite x) =
     (if - 1 < x \<and> x < 2 ^ 64
      then Inr (word_of_int (if 0 \<le> x then \<lfloor>x\<rfloor> else \<lceil>x\<rceil>))
      else Inl undefined_conversion)"
| "d_to_u64 a = Inl undefined_conversion"

subsection \<open>The estimator of Heule et al.\<close>

definition threshold :: "nat list" where
  "threshold = [10, 20, 40, 80, 220, 400, 900, 1800, 3100, 6500, 11500, 20000, 50000,
                120000, 350000]"

definition linearCounting :: "u32 \<Rightarrow> u32 \<Rightarrow> failure + double" where
  "linearCounting m' v =
     (if v > m' then Inl (invalid_argument ''number of v should not be greater than m'')
      else Inr (d_mul (d_of_nat (unat m'))
                  (d_log (d_div (d_of_nat (unat m')) (d_of_nat (unat v))))))"

definition alpha :: "u32 \<Rightarrow> double" where
  "alpha m' =
     (if m' = 16 then Finite 0.673
      else if m' = 32 then Finite 0.697
      else if m' = 64 then Finite 0.709
      else d_div (Finite 0.7213) (d_add (Finite 1) (d_div (Finite 1.079) (d_of_nat (unat m')))))"

text \<open>
  \<^verbatim>\<open>calculateRawEstimate\<close>: \<^verbatim>\<open>1ull << M[i]\<close> is a 64-bit shift, and \<^verbatim>\<open>M.size()\<close> is
  converted to \<^verbatim>\<open>uint32_t\<close> for \<^verbatim>\<open>alpha\<close>.
\<close>

definition calculateRawEstimate :: "u8 list \<Rightarrow> double" where
  "calculateRawEstimate Ms =
     (let inverseSum =
            fold (\<lambda>r acc. d_add acc
                    (d_div (Finite 1) (d_of_nat (unat (push_bit (unat r) 1 :: u64)))))
              Ms (Finite 0)
      in d_div (d_mul (d_mul (alpha (of_nat (length Ms))) (d_of_nat (length Ms * length Ms)))
                  (Finite 1))
           inverseSum)"

definition countZeros :: "u8 list \<Rightarrow> u32" where
  "countZeros s = of_nat (length (filter (\<lambda>r. r = 0) s))"

text \<open>
  \<^verbatim>\<open>getEstimateBias\<close>. The tables \<^verbatim>\<open>rawEstimateData_precisionN\<close> and
  \<^verbatim>\<open>biasData_precisionN\<close> of \<^verbatim>\<open>hyperloglogbias.h\<close> are parameters, indexed by the
  precision. \<^verbatim>\<open>lower_bound\<close> in the sorted table is the number of entries below the
  estimate.
\<close>

definition getEstimateBias ::
  "(nat \<Rightarrow> double list) \<Rightarrow> (nat \<Rightarrow> double list) \<Rightarrow> u8 \<Rightarrow> double \<Rightarrow> double" where
  "getEstimateBias rawEstimateData biasData prec estimate =
     (let rawEstimateTable = rawEstimateData (unat prec);
          biasTable = biasData (unat prec)
      in if d_le estimate (hd rawEstimateTable) then hd biasTable
         else if d_le (last rawEstimateTable) estimate then last biasTable
         else
           (let pos = length (takeWhile (\<lambda>e. d_less e estimate) rawEstimateTable);
                e1 = rawEstimateTable ! (pos - 1);
                e2 = rawEstimateTable ! pos;
                c = d_div (d_sub estimate e1) (d_sub e2 e1)
            in d_add (d_mul (biasTable ! (pos - 1)) (d_sub (Finite 1) c))
                 (d_mul (biasTable ! pos) c)))"

text \<open>
  \<^verbatim>\<open>cardinality\<close>. In the sparse branch \<^verbatim>\<open>mPrime-uint32_t(sparseList.size())\<close> is a
  32-bit subtraction, and the \<^verbatim>\<open>double\<close> is converted by \<^verbatim>\<open>uint64_t(\<dots>)\<close>. In the dense
  branch \<^verbatim>\<open>uint64_t lc_estimate = linearCounting(m, v)\<close> converts as well, and only the
  final \<^verbatim>\<open>std::round(est)\<close> rounds.
\<close>

definition cardinality ::
  "(nat \<Rightarrow> double list) \<Rightarrow> (nat \<Rightarrow> double list) \<Rightarrow> hll \<Rightarrow> failure + u64" where
  "cardinality rawEstimateData biasData this =
     (if sparse this then
        (case linearCounting mPrime (mPrime - of_nat (card (sparseList this))) of
           Inl e \<Rightarrow> Inl e
         | Inr d \<Rightarrow> d_to_u64 d)
      else
        (let v = countZeros (M this);
             lc = (if v \<noteq> 0 then
                     (case linearCounting (m this) v of
                        Inl e \<Rightarrow> Inl e
                      | Inr d \<Rightarrow>
                          (case d_to_u64 d of
                             Inl e \<Rightarrow> Inl e
                           | Inr lc_estimate \<Rightarrow>
                               if d_le (d_of_nat (unat lc_estimate))
                                    (d_of_nat (threshold ! (unat (p this) - 4)))
                               then Inr (Some lc_estimate) else Inr None))
                   else Inr None)
         in case lc of
              Inl e \<Rightarrow> Inl e
            | Inr (Some lc_estimate) \<Rightarrow> Inr lc_estimate
            | Inr None \<Rightarrow>
                (let est = calculateRawEstimate (M this);
                     est' = (if d_le est (d_mul (d_of_nat (unat (m this))) (Finite 5))
                             then d_sub est (getEstimateBias rawEstimateData biasData (p this) est)
                             else est)
                 in d_to_u64 (d_round est'))))"

subsection \<open>The estimator of Ertl\<close>

text \<open>
  \<^verbatim>\<open>registerHistogram\<close> reads the member \<^verbatim>\<open>m\<close> as loop bound; \<^verbatim>\<open>sparseRegisterHistogram\<close>
  decodes with the member \<^verbatim>\<open>p\<close>. Both are arguments here. The histogram is a
  \<^verbatim>\<open>vector<int>\<close> of \<open>q + 2\<close> counters.
\<close>

definition registerHistogram :: "u32 \<Rightarrow> u8 list \<Rightarrow> nat \<Rightarrow> int list" where
  "registerHistogram m' Ms q =
     fold (\<lambda>i C. C[unat (Ms ! i) := C ! unat (Ms ! i) + 1]) [0..<unat m'] (replicate (q + 2) 0)"

definition sparseRegisterHistogram :: "u8 \<Rightarrow> u32 set \<Rightarrow> nat \<Rightarrow> nat \<Rightarrow> int list" where
  "sparseRegisterHistogram prec sl m' q =
     fold (\<lambda>enc_hash C.
             (let ir = getIndexAndRankFromEncodedHash prec enc_hash;
                  C1 = C[unat (rank ir) := C ! unat (rank ir) + 1]
              in C1[0 := C1 ! 0 - 1]))
       (sorted_list_of_set sl) ((replicate (q + 2) 0)[0 := int m'])"

text \<open>
  The loops of \<^verbatim>\<open>sigma\<close> and \<^verbatim>\<open>tau\<close> run until the sum stops changing. Their result is
  \<open>None\<close> when the loop does not end. On reals the sum stops changing only when the
  term added is zero; that the loops end on doubles, by rounding, is outside this model.
\<close>

partial_function (option) sigma_loop :: "double \<Rightarrow> double \<Rightarrow> double \<Rightarrow> double option" where
  "sigma_loop x sigma_x y =
     (let prev_sigma_x = sigma_x;
          x1 = d_mul x x;
          sigma_x1 = d_add sigma_x (d_mul x1 y);
          y1 = d_add y y
      in if \<not> d_eq sigma_x1 prev_sigma_x then sigma_loop x1 sigma_x1 y1 else Some sigma_x1)"

definition sigma :: "double \<Rightarrow> double option" where
  "sigma x = (if d_eq x (Finite 1) then Some PInf else sigma_loop x x (Finite 1))"

partial_function (option) tau_loop :: "double \<Rightarrow> double \<Rightarrow> double \<Rightarrow> double option" where
  "tau_loop x y tau_x =
     (let prev_tau_x = tau_x;
          x1 = d_sqrt x;
          y1 = d_div y (Finite 2);
          tau_x1 = d_sub tau_x (d_mul (d_mul (d_sub (Finite 1) x1) (d_sub (Finite 1) x1)) y1)
      in if \<not> d_eq tau_x1 prev_tau_x then tau_loop x1 y1 tau_x1
         else Some (d_div tau_x1 (Finite 3)))"

definition tau :: "double \<Rightarrow> double option" where
  "tau x =
     (if d_eq x (Finite 0) \<or> d_eq x (Finite 1) then Some (Finite 0)
      else tau_loop x (Finite 1) (d_sub (Finite 1) x))"

text \<open>
  \<^verbatim>\<open>ertlCardinality\<close>: \<open>None\<close> when \<^verbatim>\<open>sigma\<close> or \<^verbatim>\<open>tau\<close> does not return, otherwise the
  conversion of \<^verbatim>\<open>std::round(m_sq_alpha_inf / est_denominator)\<close> to the return type
  \<^verbatim>\<open>uint64_t\<close>.
\<close>

definition ertl_denominator_loop :: "int list \<Rightarrow> nat \<Rightarrow> double \<Rightarrow> double" where
  "ertl_denominator_loop C q est_denominator =
     fold (\<lambda>k d. d_mul (d_add d (d_of_int (C ! k))) (Finite 0.5)) (rev [1..<q + 1]) est_denominator"

definition ertlCardinality :: "hll \<Rightarrow> (failure + u64) option" where
  "ertlCardinality this =
     (let q = (if sparse this then 64 - unat pPrime else 64 - unat (p this));
          m' = (if sparse this then unat mPrime else unat (m this));
          C = (if sparse this then sparseRegisterHistogram (p this) (sparseList this) m' q
               else registerHistogram (m this) (M this) q)
      in case tau (d_sub (Finite 1) (d_div (d_of_int (C ! (q + 1))) (d_of_nat m'))) of
           None \<Rightarrow> None
         | Some t \<Rightarrow>
             (let est_denominator = ertl_denominator_loop C q (d_mul (d_of_nat m') t)
              in case sigma (d_div (d_of_int (C ! 0)) (d_of_nat m')) of
                   None \<Rightarrow> None
                 | Some s \<Rightarrow>
                     (let est_denominator1 = d_add est_denominator (d_mul (d_of_nat m') s);
                          m_sq_alpha_inf =
                            d_mul (d_div (d_of_nat m') (d_mul (Finite 2) (d_log (Finite 2))))
                              (d_of_nat m')
                      in Some (d_to_u64 (d_round (d_div m_sq_alpha_inf est_denominator1))))))"

subsection \<open>Auxiliary notions for the proofs\<close>

text \<open>
  The max-update of one register, as \<^verbatim>\<open>add\<close> and \<^verbatim>\<open>addToRegisters\<close> perform it; the
  registers that \<^verbatim>\<open>switchToNormalRepresentation\<close> builds from a sparse list; and the
  invariant of a counter, which the constructor establishes and every operation keeps.
\<close>

definition max_update :: "nat \<Rightarrow> u8 \<Rightarrow> u8 list \<Rightarrow> u8 list" where
  "max_update i r Ms = (if r > Ms ! i then Ms[i := r] else Ms)"

definition registers_of :: "u8 \<Rightarrow> nat \<Rightarrow> u32 set \<Rightarrow> u8 list" where
  "registers_of prec n sl = fold (addToRegisters_step prec) (sorted_list_of_set sl) (replicate n 0)"

definition wf :: "hll \<Rightarrow> bool" where
  "wf this \<longleftrightarrow> 4 \<le> p this \<and> p this \<le> 18 \<and> m this = push_bit (unat (p this)) 1
     \<and> (\<not> sparse this \<longrightarrow> length (M this) = unat (m this))"

text \<open>
  The part of \<^verbatim>\<open>ertlCardinality\<close> after the histogram is built, as a function of
  \<^verbatim>\<open>q\<close>, \<^verbatim>\<open>m\<close> and \<^verbatim>\<open>C\<close>; \<open>ertlCardinality_estimate\<close> below relates the two.
\<close>

definition ertl_estimate :: "nat \<Rightarrow> nat \<Rightarrow> int list \<Rightarrow> (failure + u64) option" where
  "ertl_estimate q n C =
     (case tau (d_sub (Finite 1) (d_div (d_of_int (C ! (q + 1))) (d_of_nat n))) of
        None \<Rightarrow> None
      | Some t \<Rightarrow>
          (let est_denominator = ertl_denominator_loop C q (d_mul (d_of_nat n) t)
           in case sigma (d_div (d_of_int (C ! 0)) (d_of_nat n)) of
                None \<Rightarrow> None
              | Some s \<Rightarrow>
                  (let est_denominator1 = d_add est_denominator (d_mul (d_of_nat n) s);
                       m_sq_alpha_inf =
                         d_mul (d_div (d_of_nat n) (d_mul (Finite 2) (d_log (Finite 2))))
                           (d_of_nat n)
                   in Some (d_to_u64 (d_round (d_div m_sq_alpha_inf est_denominator1))))))"

text \<open>
  The linear-counting value \<open>m \<cdot> ln (m / v)\<close> in the words of the specification, on reals.
\<close>

definition linearCount :: "real \<Rightarrow> real \<Rightarrow> real" where
  "linearCount m' v = m' * ln (m' / v)"

text \<open>
  Inputs for the concrete runs: empty bias tables (the sparse branch of \<^verbatim>\<open>cardinality\<close>
  does not read them), and a sparse counter of precision 16 holding 9600 encoded words,
  fewer than the \<open>m / 4 = 16384\<close> at which \<^verbatim>\<open>add\<close> promotes. The word \<open>65536 \<cdot> n + 128\<close> is
  the encoding of every hash whose high 25 bits are \<open>512 \<cdot> n + 1\<close>.
\<close>

definition no_tables :: "nat \<Rightarrow> double list" where
  "no_tables n = []"

definition sparse_words_9600 :: "u32 set" where
  "sparse_words_9600 = (\<lambda>n. word_of_nat (65536 * n + 128)) ` {0..<9600}"

definition sparse_counter_9600 :: hll where
  "sparse_counter_9600 =
     \<lparr>M = [], p = 16, m = 65536, sparse = True, sparseList = sparse_words_9600,
      bit_mixer = murmurhash3_finalizer\<rparr>"

section \<open>Leading zeros\<close>

lemma clz_from_le: "clz_from n x \<le> n"
  by (induction n) auto

lemma clz_from_zero_above: "i < n \<Longrightarrow> n - clz_from n x \<le> i \<Longrightarrow> \<not> bit x i"
proof (induction n)
  case 0 then show ?case by simp
next
  case (Suc n)
  show ?case
  proof (cases "bit x n")
    case True with Suc.prems show ?thesis by simp
  next
    case False
    show ?thesis
    proof (cases "i = n")
      case True with False show ?thesis by simp
    next
      case ne: False
      with Suc.prems False have "i < n" "n - clz_from n x \<le> i" by auto
      then show ?thesis by (rule Suc.IH)
    qed
  qed
qed

lemma clz_from_top_bit: "clz_from n x < n \<Longrightarrow> bit x (n - 1 - clz_from n x)"
  by (induction n) (auto split: if_splits)

lemma clz_from_unique:
  "k \<le> n \<Longrightarrow> (\<And>i. i < n \<Longrightarrow> n - k \<le> i \<Longrightarrow> \<not> bit x i) \<Longrightarrow> (k < n \<Longrightarrow> bit x (n - 1 - k))
   \<Longrightarrow> clz_from n x = k"
proof (induction n arbitrary: k)
  case 0 then show ?case by simp
next
  case (Suc n)
  show ?case
  proof (cases "bit x n")
    case True
    have "k = 0"
    proof (rule ccontr)
      assume "k \<noteq> 0"
      then have "Suc n - k \<le> n" by simp
      from Suc.prems(2)[OF _ this] True show False by simp
    qed
    with True show ?thesis by simp
  next
    case False
    have kpos: "k \<noteq> 0"
    proof
      assume "k = 0"
      with Suc.prems(3) False show False by simp
    qed
    then obtain k' where k': "k = Suc k'" by (cases k) auto
    have "clz_from n x = k'"
    proof (rule Suc.IH)
      show "k' \<le> n" using Suc.prems(1) k' by simp
      show "\<not> bit x i" if "i < n" "n - k' \<le> i" for i
        using Suc.prems(2)[of i] that k' by simp
      show "bit x (n - 1 - k')" if "k' < n"
        using Suc.prems(3) that k' by simp
    qed
    with False k' show ?thesis by simp
  qed
qed

lemma get_trailing_ones_mask: "get_trailing_ones prec = mask (unat prec)"
  by (simp add: get_trailing_ones_def mask_eq_exp_minus_1)

lemma bit_rank_bits:
  "bit (push_bit n h OR mask n :: 'a::len word) j \<longleftrightarrow> j < LENGTH('a) \<and> (j < n \<or> bit h (j - n))"
  by (auto simp: bit_simps dest: bit_imp_le_length)

lemma unat_pPrime: "unat pPrime = 25"
  by (simp add: pPrime_def)

lemma bit_idx0: "bit (idx0 h) i \<longleftrightarrow> 7 \<le> i \<and> i < 32 \<and> bit h (i + 32)"
  by (auto simp: idx0_def extractHighBits64_def unat_pPrime bit_simps add.commute)

lemma flagged_iff:
  "push_bit n (idx0 h) = 0 \<longleftrightarrow> (\<forall>i. 7 \<le> i \<and> i + n < 32 \<longrightarrow> \<not> bit h (i + 32))"
proof
  assume z: "push_bit n (idx0 h) = 0"
  show "\<forall>i. 7 \<le> i \<and> i + n < 32 \<longrightarrow> \<not> bit h (i + 32)"
  proof (intro allI impI)
    fix i assume i: "7 \<le> i \<and> i + n < 32"
    have "\<not> bit (push_bit n (idx0 h)) (i + n)" using z by simp
    with i show "\<not> bit h (i + 32)" by (simp add: bit_simps bit_idx0)
  qed
next
  assume a: "\<forall>i. 7 \<le> i \<and> i + n < 32 \<longrightarrow> \<not> bit h (i + 32)"
  show "push_bit n (idx0 h) = 0"
  proof (rule bit_word_eqI)
    fix j assume "j < LENGTH(32)"
    then show "bit (push_bit n (idx0 h)) j = bit (0::u32) j"
      using a[rule_format, of "j - n"] by (auto simp: bit_simps bit_idx0)
  qed
qed

lemma clz_rank_bits_le:
  fixes h :: u64
  assumes "1 \<le> n" "n \<le> 64"
  shows "clz_from 64 (push_bit n h OR mask n) \<le> 64 - n"
proof (rule ccontr)
  assume "\<not> clz_from 64 (push_bit n h OR mask n) \<le> 64 - n"
  then have "64 - clz_from 64 (push_bit n h OR mask n) \<le> n - 1" by simp
  moreover have "n - 1 < 64" using assms by simp
  ultimately have "\<not> bit (push_bit n h OR mask n) (n - 1)"
    by (intro clz_from_zero_above)
  then show False using assms by (simp add: bit_rank_bits)
qed

lemma clz_flagged:
  fixes h :: u64
  assumes n: "1 \<le> n" "n \<le> 25"
    and flag: "\<forall>i. 7 \<le> i \<and> i + n < 32 \<longrightarrow> \<not> bit h (i + 32)"
  shows "clz_from 64 (push_bit n h OR mask n) = 25 - n + clz_from 64 (push_bit 25 h OR mask 25)"
proof -
  define Z :: u64 where "Z = push_bit 25 h OR mask 25"
  define Y :: u64 where "Y = push_bit n h OR mask n"
  define a where "a = clz_from 64 Z"
  have bitZ: "bit Z j \<longleftrightarrow> j < 64 \<and> (j < 25 \<or> bit h (j - 25))" for j
    by (simp add: Z_def bit_rank_bits)
  have bitY: "bit Y j \<longleftrightarrow> j < 64 \<and> (j < n \<or> bit h (j - n))" for j
    by (simp add: Y_def bit_rank_bits)
  have a39: "a \<le> 39"
    using clz_rank_bits_le[of 25 h] by (simp add: a_def Z_def)
  have "clz_from 64 Y = 25 - n + a"
  proof (rule clz_from_unique)
    show "25 - n + a \<le> 64" using a39 by simp
  next
    fix i :: nat assume i: "i < 64" "64 - (25 - n + a) \<le> i"
    then have ge: "n \<le> i" "39 - a \<le> i - n" using a39 n by auto
    show "\<not> bit Y i"
    proof (cases "39 \<le> i - n")
      case True
      then have "7 \<le> i - n - 32 \<and> (i - n - 32) + n < 32" using i ge by auto
      then have "\<not> bit h ((i - n - 32) + 32)" using flag by blast
      moreover have "(i - n - 32) + 32 = i - n" using True by simp
      ultimately show ?thesis using ge by (simp add: bitY)
    next
      case False
      then have "i - n + 25 < 64" "64 - a \<le> i - n + 25" using ge a39 by auto
      then have "\<not> bit Z (i - n + 25)" unfolding a_def by (intro clz_from_zero_above)
      then have "\<not> bit h (i - n)" using False by (simp add: bitZ)
      then show ?thesis using ge by (simp add: bitY)
    qed
  next
    assume "25 - n + a < 64"
    show "bit Y (64 - 1 - (25 - n + a))"
    proof (cases "a = 39")
      case True
      then show ?thesis using n by (simp add: bitY)
    next
      case False
      with a39 have a38: "a \<le> 38" by simp
      then have "clz_from 64 Z < 64" by (simp add: a_def)
      then have "bit Z (64 - 1 - a)" unfolding a_def by (rule clz_from_top_bit)
      moreover have "\<not> 63 - a < 25" "63 - a - 25 = 38 - a" using a38 by simp_all
      ultimately have "bit h (38 - a)" by (simp add: bitZ)
      moreover have "64 - 1 - (25 - n + a) - n = 38 - a" using a38 n by simp
      ultimately show ?thesis using a38 n by (simp add: bitY)
    qed
  qed
  then show ?thesis by (simp add: Y_def a_def Z_def)
qed

lemma clz_unflagged:
  fixes h :: u64
  assumes n: "n \<le> 25"
    and nf: "7 \<le> i0" "i0 + n < 32" "bit h (i0 + 32)"
  shows "clz_from 32 (push_bit n (idx0 h) OR mask n) = clz_from 64 (push_bit n h OR mask n)"
proof -
  define X :: u32 where "X = push_bit n (idx0 h) OR mask n"
  define Y :: u64 where "Y = push_bit n h OR mask n"
  define k where "k = clz_from 64 Y"
  have bitX: "bit X j \<longleftrightarrow> j < 32 \<and> (j < n \<or> bit (idx0 h) (j - n))" for j
    by (simp add: X_def bit_rank_bits)
  have bitY: "bit Y j \<longleftrightarrow> j < 64 \<and> (j < n \<or> bit h (j - n))" for j
    by (simp add: Y_def bit_rank_bits)
  have "bit Y (i0 + 32 + n)" using nf by (simp add: bitY)
  then have "\<not> (64 - k \<le> i0 + 32 + n)"
    using clz_from_zero_above[of "i0 + 32 + n" 64 Y] nf unfolding k_def by auto
  then have k: "k + n < 25" using nf by simp
  have "clz_from 32 X = k"
  proof (rule clz_from_unique)
    show "k \<le> 32" using k by simp
  next
    fix j :: nat assume j: "j < 32" "32 - k \<le> j"
    then have "j + 32 < 64" "64 - k \<le> j + 32" using k by auto
    then have nb: "\<not> bit Y (j + 32)" unfolding k_def by (intro clz_from_zero_above)
    have jn: "n \<le> j" "7 \<le> j - n" "\<not> j < n" using j k by auto
    have eq: "j + 32 - n = j - n + 32" using jn by simp
    from nb jn j have "\<not> bit h (j + 32 - n)" by (simp add: bitY)
    then have "\<not> bit h (j - n + 32)" unfolding eq .
    then show "\<not> bit X j" using jn by (simp add: bitX bit_idx0)
  next
    assume "k < 32"
    have "clz_from 64 Y < 64" using k by (simp add: k_def)
    then have tb: "bit Y (64 - 1 - k)" unfolding k_def by (rule clz_from_top_bit)
    have kn: "\<not> 63 - k < n" "7 \<le> 31 - k - n" "\<not> 31 - k < n" "31 - k - n < 32"
      using k by auto
    have eq: "63 - k - n = 31 - k - n + 32" using k by simp
    from tb kn have "bit h (63 - k - n)" by (simp add: bitY)
    then have "bit h (31 - k - n + 32)" unfolding eq .
    then show "bit X (32 - 1 - k)" using kn by (simp add: bitX bit_idx0)
  qed
  then show ?thesis by (simp add: X_def k_def Y_def)
qed

section \<open>Decoding an encoded hash\<close>

lemma unat_prec_bounds: "(4::u8) \<le> prec \<Longrightarrow> prec \<le> 18 \<Longrightarrow> 4 \<le> unat prec \<and> unat prec \<le> 18"
  by (simp add: word_le_nat_alt)

lemma rank_bits_nonzero: "1 \<le> n \<Longrightarrow> (push_bit n h OR mask n :: 'a::len word) \<noteq> 0"
proof
  assume n: "1 \<le> n" and z: "(push_bit n h OR mask n :: 'a word) = 0"
  from n have "bit (push_bit n h OR mask n :: 'a word) 0" by (simp add: bit_rank_bits)
  with z show False by simp
qed

lemma get_rank64_clz_from:
  "1 \<le> unat prec \<Longrightarrow>
   get_rank64 h prec = of_nat (clz_from 64 (push_bit (unat prec) h OR mask (unat prec))) + 1"
  by (simp add: get_rank64_def get_trailing_ones_mask clz64_def rank_bits_nonzero builtin_clz_def)

lemma get_rank32_clz_from:
  "1 \<le> unat prec \<Longrightarrow>
   get_rank32 h prec = of_nat (clz_from 32 (push_bit (unat prec) h OR mask (unat prec))) + 1"
  by (simp add: get_rank32_def get_trailing_ones_mask clz32_def rank_bits_nonzero builtin_clz_def)

lemma unat_rank_word: "k \<le> 64 \<Longrightarrow> unat (of_nat k + 1 :: u8) = k + 1"
  by (simp add: unat_word_ariths unat_of_nat)

lemma unat_additional_rank:
  "unat (get_rank64 h pPrime) = clz_from 64 (push_bit 25 h OR mask 25) + 1"
  using clz_rank_bits_le[of 25 h]
  by (simp add: get_rank64_clz_from unat_pPrime unat_rank_word)

lemma additional_rank_take_bit: "take_bit 6 (get_rank64 h pPrime) = get_rank64 h pPrime"
proof -
  have "unat (get_rank64 h pPrime) < 2 ^ 6"
    using clz_rank_bits_le[of 25 h] by (simp add: unat_additional_rank)
  then have "get_rank64 h pPrime < 2 ^ 6"
    by (simp add: word_less_nat_alt)
  then show ?thesis by (simp add: take_bit_eq_mask less_mask_eq)
qed

lemma encodeHashIn32Bit_idx0:
  "encodeHashIn32Bit prec h =
     (if push_bit (unat prec) (idx0 h) = 0
      then idx0 h OR push_bit 1 (ucast (take_bit 6 (get_rank64 h pPrime))) OR 1 else idx0 h)"
  by (simp add: encodeHashIn32Bit_def idx0_def Let_def additional_rank_take_bit)

lemma bit_rank_field:
  "bit (push_bit 1 (ucast (take_bit 6 (w :: u8))) :: u32) j \<longleftrightarrow> 1 \<le> j \<and> j \<le> 6 \<and> bit w (j - 1)"
  unfolding bit_push_bit_iff bit_ucast_iff bit_take_bit_iff
  by (auto dest: bit_imp_le_length)

lemma bit_one_word: "bit (1 :: u32) j \<longleftrightarrow> j = 0"
  by (simp add: bit_1_iff)

lemma bit_encoded_high:
  "7 \<le> j \<Longrightarrow> bit (encodeHashIn32Bit prec h) j \<longleftrightarrow> bit (idx0 h) j"
  unfolding encodeHashIn32Bit_idx0
  by (simp only: bit_or_iff bit_rank_field bit_one_word split: if_split) auto

lemma get_index_encoded:
  assumes "unat prec \<le> 25"
  shows "get_index32 (encodeHashIn32Bit prec h) prec = get_index64 h prec"
proof (rule bit_word_eqI)
  fix j assume j: "j < LENGTH(32)"
  have "bit (get_index32 (encodeHashIn32Bit prec h) prec) j
        \<longleftrightarrow> bit (idx0 h) (32 - unat prec + j)"
    using assms by (simp add: get_index32_def bit_simps bit_encoded_high)
  also have "\<dots> \<longleftrightarrow> j < unat prec \<and> bit h (64 - unat prec + j)"
  proof (cases "j < unat prec")
    case True
    then have "32 - unat prec + j + 32 = 64 - unat prec + j" using assms by simp
    with True assms show ?thesis by (auto simp: bit_idx0)
  next
    case False
    then have "\<not> 32 - unat prec + j < 32" using assms by simp
    with False show ?thesis by (simp add: bit_idx0)
  qed
  also have "\<dots> \<longleftrightarrow> bit (get_index64 h prec) j"
    using j by (auto simp: get_index64_def bit_simps dest: bit_imp_le_length)
  finally show "bit (get_index32 (encodeHashIn32Bit prec h) prec) j = bit (get_index64 h prec) j" .
qed

lemma extractBits_7_1: "extractBits v 7 1 False = take_bit 6 (drop_bit 1 v)"
proof -
  have "extractBits v 7 1 False = drop_bit 1 (v AND push_bit 1 (mask 6))"
    by (simp add: extractBits_def mask_eq_exp_minus_1)
  also have "\<dots> = take_bit 6 (drop_bit 1 v)"
    by (rule bit_word_eqI)
      (auto simp only: bit_take_bit_iff bit_drop_bit_eq o_def bit_and_iff bit_push_bit_iff
         bit_mask_iff possible_bit_word dest: bit_imp_le_length)
  finally show ?thesis .
qed

lemma encoded_flagged_low:
  assumes "push_bit (unat prec) (idx0 h) = 0"
  shows "encodeHashIn32Bit prec h AND 1 = 1"
    and "extractBits (encodeHashIn32Bit prec h) 7 1 False = ucast (get_rank64 h pPrime)"
proof -
  let ?ar = "get_rank64 h pPrime"
  have e: "encodeHashIn32Bit prec h = idx0 h OR push_bit 1 (ucast (take_bit 6 ?ar)) OR 1"
    using assms by (simp add: encodeHashIn32Bit_idx0)
  show "encodeHashIn32Bit prec h AND 1 = 1"
    unfolding e by (rule bit_word_eqI) (auto simp only: bit_and_iff bit_or_iff bit_one_word)
  have "extractBits (encodeHashIn32Bit prec h) 7 1 False = ucast (take_bit 6 ?ar)"
    unfolding e extractBits_7_1
  proof (rule bit_word_eqI)
    fix j assume "j < LENGTH(32)"
    show "bit (take_bit 6 (drop_bit 1 (idx0 h OR push_bit 1 (ucast (take_bit 6 ?ar)) OR 1))) j
          = bit (ucast (take_bit 6 ?ar) :: u32) j"
      unfolding bit_take_bit_iff bit_drop_bit_eq o_def bit_or_iff bit_rank_field bit_one_word
        bit_idx0 bit_ucast_iff
      by auto
  qed
  then show "extractBits (encodeHashIn32Bit prec h) 7 1 False = ucast ?ar"
    by (simp only: additional_rank_take_bit)
qed

lemma encoded_unflagged_low:
  assumes "push_bit (unat prec) (idx0 h) \<noteq> 0"
  shows "encodeHashIn32Bit prec h = idx0 h" and "encodeHashIn32Bit prec h AND 1 \<noteq> 1"
proof -
  show e: "encodeHashIn32Bit prec h = idx0 h"
    using assms by (simp add: encodeHashIn32Bit_idx0)
  have "\<not> bit (idx0 h AND 1) 0" by (simp add: bit_and_iff bit_idx0)
  then have "idx0 h AND 1 \<noteq> 1" by (auto simp: bit_one_word)
  then show "encodeHashIn32Bit prec h AND 1 \<noteq> 1" unfolding e .
qed

lemma flagged_rank_sum:
  fixes w :: u8
  assumes "unat prec \<le> 25" "unat w \<le> 40"
  shows "unat (ucast ((ucast (pPrime - prec) :: u32) + ucast w) :: u8) = 25 - unat prec + unat w"
proof -
  have le: "prec \<le> pPrime" using assms by (simp add: word_le_nat_alt unat_pPrime)
  have d: "unat (pPrime - prec) = 25 - unat prec"
    using le by (simp add: unat_sub unat_pPrime)
  show ?thesis
    using assms by (simp add: unsigned_ucast_eq take_bit_eq_mod unat_word_ariths d)
qed

lemma decode_encode:
  assumes "4 \<le> prec" "prec \<le> 18"
  shows "getIndexAndRankFromEncodedHash prec (encodeHashIn32Bit prec h)
         = \<lparr>idx = get_index64 h prec, rank = get_rank64 h prec\<rparr>"
proof -
  define n where "n = unat prec"
  have n: "4 \<le> n" "n \<le> 18" using unat_prec_bounds[OF assms] by (simp_all add: n_def)
  have i: "get_index32 (encodeHashIn32Bit prec h) prec = get_index64 h prec"
    using n by (intro get_index_encoded) (simp add: n_def)
  have r64: "get_rank64 h prec = of_nat (clz_from 64 (push_bit n h OR mask n)) + 1"
    unfolding n_def using n by (intro get_rank64_clz_from) (simp add: n_def)
  show ?thesis
  proof (cases "push_bit n (idx0 h) = 0")
    case True
    then have fl: "\<forall>i. 7 \<le> i \<and> i + n < 32 \<longrightarrow> \<not> bit h (i + 32)"
      by (simp only: flagged_iff)
    have low: "encodeHashIn32Bit prec h AND 1 = 1"
      "extractBits (encodeHashIn32Bit prec h) 7 1 False = ucast (get_rank64 h pPrime)"
      using True by (simp_all add: encoded_flagged_low n_def)
    have a: "clz_from 64 (push_bit 25 h OR mask 25 :: u64) \<le> 39"
      using clz_rank_bits_le[of 25 h] by simp
    have p25: "unat prec \<le> 25" using n by (simp add: n_def)
    have r40: "unat (get_rank64 h pPrime) \<le> 40" using a by (simp add: unat_additional_rank)
    have "unat (ucast ((ucast (pPrime - prec) :: u32) + ucast (get_rank64 h pPrime)) :: u8)
          = 25 - n + unat (get_rank64 h pPrime)"
      unfolding n_def by (rule flagged_rank_sum[OF p25 r40])
    also have "\<dots> = clz_from 64 (push_bit n h OR mask n) + 1"
    proof -
      have "1 \<le> n" "n \<le> 25" using n by simp_all
      from clz_flagged[OF this fl] show ?thesis by (simp only: unat_additional_rank)
    qed
    also have "\<dots> = unat (get_rank64 h prec)"
      using clz_from_le[of 64 "push_bit n h OR mask n"] by (simp add: r64 unat_rank_word)
    finally have "(ucast ((ucast (pPrime - prec) :: u32) + ucast (get_rank64 h pPrime)) :: u8)
                  = get_rank64 h prec"
      by (simp only: word_unat_eq_iff)
    then show ?thesis
      by (simp add: getIndexAndRankFromEncodedHash_def Let_def low i)
  next
    case False
    then obtain i0 where i0: "7 \<le> i0" "i0 + n < 32" "bit h (i0 + 32)"
      by (auto simp: flagged_iff)
    have nz: "push_bit (unat prec) (idx0 h) \<noteq> 0" using False by (simp add: n_def)
    note low = encoded_unflagged_low[OF nz]
    have "get_rank32 (idx0 h) prec = of_nat (clz_from 32 (push_bit n (idx0 h) OR mask n)) + 1"
      unfolding n_def using n by (intro get_rank32_clz_from) (simp add: n_def)
    also have "\<dots> = get_rank64 h prec"
      using n i0 by (simp add: r64 clz_unflagged)
    finally have "get_rank32 (encodeHashIn32Bit prec h) prec = get_rank64 h prec"
      by (simp only: low)
    then show ?thesis
      using low(2) by (simp add: getIndexAndRankFromEncodedHash_def Let_def i)
  qed
qed

text \<open>
  C3. For every 64-bit hash and every precision from 4 to 18, decoding the 32-bit sparse
  encoding of the hash gives the dense index \<^verbatim>\<open>h >> (64 - p)\<close> and the dense rank
  \<^verbatim>\<open>clz64((h << p) | ((1 << p) - 1)) + 1\<close>.
\<close>

theorem encode_decode_roundtrip:
  assumes "4 \<le> prec" "prec \<le> 18"
  shows "idx (getIndexAndRankFromEncodedHash prec (encodeHashIn32Bit prec h))
           = ucast (drop_bit (64 - unat prec) h)
       \<and> rank (getIndexAndRankFromEncodedHash prec (encodeHashIn32Bit prec h))
           = clz64 (push_bit (unat prec) h OR (push_bit (unat prec) 1 - 1)) + 1"
  using decode_encode[OF assms, of h]
  by (simp add: get_index64_def get_rank64_def get_trailing_ones_def)

theorem encode_decode_roundtrip_witness:
  "(4::u8) \<le> 12 \<and> (12::u8) \<le> 18
   \<and> idx (getIndexAndRankFromEncodedHash 12 (encodeHashIn32Bit 12 0xABC0010000000001)) = 2748
   \<and> rank (getIndexAndRankFromEncodedHash 12 (encodeHashIn32Bit 12 0xABC0010000000001)) = 12"
proof -
  have h: "(4::u8) \<le> 12" "(12::u8) \<le> 18" by simp_all
  have v: "(ucast (drop_bit (64 - unat (12::u8)) (0xABC0010000000001::u64)) :: u32) = 2748"
    "clz64 (push_bit (unat (12::u8)) 0xABC0010000000001 OR (push_bit (unat (12::u8)) 1 - 1)) + 1 = 12"
    by code_simp+
  show ?thesis
    using encode_decode_roundtrip[OF h, of "0xABC0010000000001"] h unfolding v by simp
qed

section \<open>Registers and the sparse list\<close>

lemma length_max_update [simp]: "length (max_update i r Ms) = length Ms"
  by (simp add: max_update_def)

lemma nth_max_update:
  "k < length Ms \<Longrightarrow> max_update i r Ms ! k = (if k = i then max (Ms ! k) r else Ms ! k)"
  by (auto simp: max_update_def max_def)

lemma max_update_commute:
  "max_update i r (max_update j s Ms) = max_update j s (max_update i r Ms)"
  by (rule nth_equalityI) (auto simp: nth_max_update max.commute max.left_commute)

lemma max_update_idem: "max_update i r (max_update i r Ms) = max_update i r Ms"
  by (rule nth_equalityI) (auto simp: nth_max_update)

lemma addToRegisters_step_max_update:
  "addToRegisters_step prec e =
     max_update (unat (idx (getIndexAndRankFromEncodedHash prec e)))
       (rank (getIndexAndRankFromEncodedHash prec e))"
  by (rule ext) (simp add: addToRegisters_step_def max_update_def Let_def)

lemma addToRegisters_step_commute:
  "addToRegisters_step prec x \<circ> addToRegisters_step prec y
   = addToRegisters_step prec y \<circ> addToRegisters_step prec x"
  by (rule ext) (simp add: addToRegisters_step_max_update max_update_commute)

lemma addToRegisters_step_idem:
  "addToRegisters_step prec x (addToRegisters_step prec x Ms) = addToRegisters_step prec x Ms"
  by (simp add: addToRegisters_step_max_update max_update_idem)

lemma length_addToRegisters_step [simp]:
  "length (addToRegisters_step prec x Ms) = length Ms"
  by (simp add: addToRegisters_step_max_update)

lemma length_fold_addToRegisters_step [simp]:
  "length (fold (addToRegisters_step prec) xs Ms) = length Ms"
  by (induction xs arbitrary: Ms) simp_all

text \<open>Every enumeration of the same elements gives the same registers.\<close>

lemma fold_addToRegisters_step_order:
  "mset xs = mset ys \<Longrightarrow>
   fold (addToRegisters_step prec) xs Ms = fold (addToRegisters_step prec) ys Ms"
  using fold_multiset_equiv[of xs "addToRegisters_step prec" ys]
  by (simp add: addToRegisters_step_commute)

lemma fold_addToRegisters_step_swap:
  "addToRegisters_step prec e (fold (addToRegisters_step prec) xs Ms)
   = fold (addToRegisters_step prec) xs (addToRegisters_step prec e Ms)"
  by (rule fold_commute_apply) (simp add: addToRegisters_step_commute)

lemma fold_addToRegisters_step_absorb:
  "e \<in> set xs \<Longrightarrow>
   addToRegisters_step prec e (fold (addToRegisters_step prec) xs Ms)
   = fold (addToRegisters_step prec) xs Ms"
proof (induction xs arbitrary: Ms)
  case Nil
  then show ?case by simp
next
  case (Cons x xs)
  show ?case
  proof (cases "e = x")
    case True
    then show ?thesis
      by (simp add: fold_addToRegisters_step_swap addToRegisters_step_idem)
  next
    case False
    with Cons.prems have "e \<in> set xs" by simp
    then show ?thesis by (simp add: Cons.IH)
  qed
qed

lemma registers_of_insert:
  "registers_of prec n (insert e sl) = addToRegisters_step prec e (registers_of prec n sl)"
proof (cases "e \<in> sl")
  case True
  then have "insert e sl = sl" by auto
  moreover have "e \<in> set (sorted_list_of_set sl)" using True by simp
  ultimately show ?thesis
    by (simp add: registers_of_def fold_addToRegisters_step_absorb)
next
  case False
  have "mset (sorted_list_of_set (insert e sl)) = mset (e # sorted_list_of_set sl)"
    using False by (simp add: mset_set_set[symmetric] del: mset_set_set)
  then have "fold (addToRegisters_step prec) (sorted_list_of_set (insert e sl)) (replicate n 0)
        = fold (addToRegisters_step prec) (e # sorted_list_of_set sl) (replicate n 0)"
    by (rule fold_addToRegisters_step_order)
  then show ?thesis
    by (simp add: registers_of_def fold_addToRegisters_step_swap)
qed

lemma registers_of_empty [simp]: "registers_of prec n {} = replicate n 0"
  by (simp add: registers_of_def)

lemma length_registers_of [simp]: "length (registers_of prec n sl) = n"
  by (simp add: registers_of_def)

lemma addToRegisters_eq:
  "addToRegisters this sl
   = this\<lparr>M := fold (addToRegisters_step (p this)) (sorted_list_of_set sl) (M this)\<rparr>"
  by (simp add: addToRegisters_def)

lemma switchToNormalRepresentation_eq:
  "switchToNormalRepresentation this
   = this\<lparr>sparse := False,
          M := registers_of (p this) (unat (m this)) (sparseList this),
          sparseList := {}\<rparr>"
  by (simp add: switchToNormalRepresentation_def addToRegisters_eq registers_of_def Let_def)

lemma addToRegisters_step_encode:
  assumes "4 \<le> prec" "prec \<le> 18"
  shows "addToRegisters_step prec (encodeHashIn32Bit prec h)
         = max_update (unat (get_index64 h prec)) (get_rank64 h prec)"
  by (simp add: addToRegisters_step_max_update decode_encode[OF assms])

lemma add_dense:
  "\<not> sparse this \<Longrightarrow>
   add this item
   = this\<lparr>M := max_update (unat (get_index64 (bit_mixer this item) (p this)))
                  (get_rank64 (bit_mixer this item) (p this)) (M this)\<rparr>"
  by (simp add: add_def max_update_def Let_def)

lemma add_sparse:
  "sparse this \<Longrightarrow>
   add this item
   = (if card (insert (encodeHashIn32Bit (p this) (bit_mixer this item)) (sparseList this))
          > unat (m this div 4)
      then this\<lparr>sparse := False,
                M := registers_of (p this) (unat (m this))
                       (insert (encodeHashIn32Bit (p this) (bit_mixer this item)) (sparseList this)),
                sparseList := {}\<rparr>
      else this\<lparr>sparseList :=
                  insert (encodeHashIn32Bit (p this) (bit_mixer this item)) (sparseList this)\<rparr>)"
  by (simp add: add_def insert_hash_def switchToNormalRepresentation_eq Let_def)

lemma add_add_swap:
  assumes "4 \<le> p this" "p this \<le> 18"
  shows "add (add this k1) k2 = add (add this k2) k1"
proof (cases "sparse this")
  case False
  then show ?thesis
    by (simp add: add_dense max_update_commute)
next
  case True
  define e1 where "e1 = encodeHashIn32Bit (p this) (bit_mixer this k1)"
  define e2 where "e2 = encodeHashIn32Bit (p this) (bit_mixer this k2)"
  define S where "S = sparseList this"
  define T where "T = unat (m this div 4)"
  have s1: "addToRegisters_step (p this) e1
            = max_update (unat (get_index64 (bit_mixer this k1) (p this)))
                (get_rank64 (bit_mixer this k1) (p this))"
    unfolding e1_def by (rule addToRegisters_step_encode[OF assms])
  have s2: "addToRegisters_step (p this) e2
            = max_update (unat (get_index64 (bit_mixer this k2) (p this)))
                (get_rank64 (bit_mixer this k2) (p this))"
    unfolding e2_def by (rule addToRegisters_step_encode[OF assms])
  have mono1: "card (insert e1 S) \<le> card (insert e2 (insert e1 S))"
    by (intro card_mono) auto
  have mono2: "card (insert e2 S) \<le> card (insert e1 (insert e2 S))"
    by (intro card_mono) auto
  have comm: "insert e2 (insert e1 S) = insert e1 (insert e2 S)" by auto
  have regs: "registers_of (p this) n (insert e2 (insert e1 S))
              = addToRegisters_step (p this) e2 (registers_of (p this) n (insert e1 S))"
             "registers_of (p this) n (insert e1 (insert e2 S))
              = addToRegisters_step (p this) e1 (registers_of (p this) n (insert e2 S))" for n
    by (simp_all add: registers_of_insert)
  show ?thesis
    using True mono1 mono2
    by (auto simp add: add_sparse add_dense e1_def[symmetric] e2_def[symmetric] S_def[symmetric]
          T_def[symmetric] s1[symmetric] s2[symmetric] regs[symmetric] comm)
qed

section \<open>Well-formed counters\<close>

lemma unat_push_bit_1:
  assumes "n < 32"
  shows "unat (push_bit n 1 :: u32) = 2 ^ n"
proof -
  have "(2::nat) ^ n < 2 ^ 32" using assms by (intro power_strict_increasing) simp_all
  moreover have "unat (push_bit n 1 :: u32) = take_bit LENGTH(32) (push_bit n (unat (1 :: u32)))"
    by (rule unsigned_push_bit_eq)
  ultimately show ?thesis by (simp add: push_bit_eq_mult take_bit_eq_mod)
qed

lemma unat_m_wf:
  assumes "wf this"
  shows "unat (m this) = 2 ^ unat (p this)"
proof -
  have "unat (p this) \<le> 18" using assms unat_prec_bounds[of "p this"] by (simp add: wf_def)
  then have "unat (p this) < 32" by simp
  then have "unat (push_bit (unat (p this)) 1 :: u32) = 2 ^ unat (p this)"
    by (rule unat_push_bit_1)
  moreover have "m this = push_bit (unat (p this)) 1" using assms unfolding wf_def by blast
  ultimately show ?thesis by (simp only:)
qed

lemma drop_bit_word_less:
  fixes w :: "'a::len word"
  assumes "n \<le> LENGTH('a)"
  shows "unat (drop_bit (LENGTH('a) - n) w) < 2 ^ n"
proof -
  have "unat w < 2 ^ n * 2 ^ (LENGTH('a) - n)"
    using assms unsigned_less[of w, where 'a = nat] by (simp flip: power_add)
  then have "unat w div 2 ^ (LENGTH('a) - n) < 2 ^ n"
    by (rule less_mult_imp_div_less)
  moreover have "unat (drop_bit (LENGTH('a) - n) w) = drop_bit (LENGTH('a) - n) (unat w)"
    by (rule unat_drop_bit_eq)
  moreover have "drop_bit (LENGTH('a) - n) (unat w) = unat w div 2 ^ (LENGTH('a) - n)"
    by (rule drop_bit_eq_div)
  ultimately show ?thesis by (simp only:)
qed

lemma length_M_wf: "wf this \<Longrightarrow> \<not> sparse this \<Longrightarrow> length (M this) = 2 ^ unat (p this)"
  using unat_m_wf[of this] unfolding wf_def by simp

lemma get_index64_less:
  assumes "unat prec \<le> 32"
  shows "unat (get_index64 h prec) < 2 ^ unat prec"
proof -
  have "unat (get_index64 h prec) \<le> unat (drop_bit (64 - unat prec) h)"
    by (simp add: get_index64_def unsigned_ucast_eq take_bit_eq_mod)
  also have "\<dots> < 2 ^ unat prec"
    using drop_bit_word_less[of "unat prec" h] assms by simp
  finally show ?thesis .
qed

lemma get_index32_less:
  assumes "unat prec \<le> 32"
  shows "unat (idx (getIndexAndRankFromEncodedHash prec e)) < 2 ^ unat prec"
proof -
  have "idx (getIndexAndRankFromEncodedHash prec e) = drop_bit (32 - unat prec) e"
    by (simp add: getIndexAndRankFromEncodedHash_def get_index32_def Let_def)
  then show ?thesis
    using drop_bit_word_less[of "unat prec" e] assms by simp
qed

text \<open>The register accesses of \<^verbatim>\<open>add\<close> and \<^verbatim>\<open>addToRegisters\<close> are inside the vector.\<close>

lemma add_index_in_range:
  assumes "wf this" "\<not> sparse this"
  shows "unat (get_index64 (bit_mixer this item) (p this)) < length (M this)"
proof -
  have "unat (p this) \<le> 18" using assms unat_prec_bounds[of "p this"] by (simp add: wf_def)
  then have "unat (get_index64 (bit_mixer this item) (p this)) < 2 ^ unat (p this)"
    by (intro get_index64_less) simp
  then show ?thesis using assms by (simp add: length_M_wf)
qed

lemma addToRegisters_index_in_range:
  assumes "wf this" "\<not> sparse this"
  shows "unat (idx (getIndexAndRankFromEncodedHash (p this) e)) < length (M this)"
proof -
  have "unat (p this) \<le> 18" using assms unat_prec_bounds[of "p this"] by (simp add: wf_def)
  then have "unat (idx (getIndexAndRankFromEncodedHash (p this) e)) < 2 ^ unat (p this)"
    by (intro get_index32_less) simp
  then show ?thesis using assms by (simp add: length_M_wf)
qed

lemma wf_HyperLogLogPlusMinus:
  "HyperLogLogPlusMinus precision sp mixer = Inr this \<Longrightarrow> wf this"
  by (auto simp: HyperLogLogPlusMinus_def wf_def not_less split: if_splits)

lemma wf_switchToNormalRepresentation: "wf this \<Longrightarrow> wf (switchToNormalRepresentation this)"
  by (simp add: switchToNormalRepresentation_eq wf_def)

lemma wf_add: "wf this \<Longrightarrow> wf (add this item)"
  by (cases "sparse this") (auto simp: add_sparse add_dense wf_def)

lemma wf_add_many: "wf this \<Longrightarrow> wf (add_many this ks)"
  unfolding add_many_def by (induction ks arbitrary: this) (simp_all add: wf_add)

lemma wf_reset: "wf this \<Longrightarrow> wf (reset this)"
  by (simp add: reset_def wf_def)

lemma length_merge_registers [simp]: "length (merge_registers Ms other_M) = length Ms"
proof -
  have "length (fold (\<lambda>i Ms'. if other_M ! i > Ms' ! i then Ms'[i := other_M ! i] else Ms') xs Ms)
        = length Ms" for xs
    by (induction xs arbitrary: Ms) simp_all
  then show ?thesis by (simp add: merge_registers_def)
qed

lemma wf_merge: "wf this \<Longrightarrow> wf (snd (merge this other))"
  by (auto simp: merge_def wf_def addToRegisters_eq switchToNormalRepresentation_eq Let_def)

section \<open>Promotion, commutation and merge\<close>

lemma promotion_step:
  assumes d: "d = (if sparse s then switchToNormalRepresentation s else s)"
    and pr: "4 \<le> p s" "p s \<le> 18"
  shows "add d item = (if sparse (add s item) then switchToNormalRepresentation (add s item)
                       else add s item)
         \<and> 4 \<le> p (add s item) \<and> p (add s item) \<le> 18"
proof (cases "sparse s")
  case False
  with d pr show ?thesis by (simp add: add_dense)
next
  case True
  have "addToRegisters_step (p s) (encodeHashIn32Bit (p s) (bit_mixer s item))
        = max_update (unat (get_index64 (bit_mixer s item) (p s)))
            (get_rank64 (bit_mixer s item) (p s))"
    by (rule addToRegisters_step_encode[OF pr])
  then show ?thesis
    using True d pr
    by (simp add: add_sparse add_dense switchToNormalRepresentation_eq registers_of_insert)
qed

lemma promotion_foldl:
  assumes "d = (if sparse s then switchToNormalRepresentation s else s)" "4 \<le> p s" "p s \<le> 18"
  shows "foldl add d ks = (if sparse (foldl add s ks)
                           then switchToNormalRepresentation (foldl add s ks)
                           else foldl add s ks)"
  using assms
proof (induction ks arbitrary: s d)
  case Nil
  then show ?case by simp
next
  case (Cons k ks)
  from promotion_step[OF Cons.prems, of k]
  show ?case by (simp add: Cons.IH)
qed

text \<open>
  C5. For every key stream, promoting the sparse counter that received the stream gives
  the counter, and so the register array, that the same stream gives when the counter is
  constructed dense from the start. If the stream itself triggered the promotion, the
  counter is dense already and is that counter.
\<close>

theorem promotion_equivalence:
  assumes "HyperLogLogPlusMinus precision True mixer = Inr s0"
    and "HyperLogLogPlusMinus precision False mixer = Inr d0"
  shows "(if sparse (add_many s0 ks) then switchToNormalRepresentation (add_many s0 ks)
          else add_many s0 ks) = add_many d0 ks
       \<and> M (if sparse (add_many s0 ks) then switchToNormalRepresentation (add_many s0 ks)
            else add_many s0 ks) = M (add_many d0 ks)"
proof -
  have "d0 = (if sparse s0 then switchToNormalRepresentation s0 else s0)"
    "4 \<le> p s0" "p s0 \<le> 18"
    using assms
    by (auto simp: HyperLogLogPlusMinus_def switchToNormalRepresentation_eq not_less
             split: if_splits)
  from promotion_foldl[OF this, of ks] show ?thesis
    by (simp add: add_many_def)
qed

text \<open>
  C7. In every state of a counter, sparse or dense, adding two keys in either order gives
  the same state, also when one of the calls promotes the counter. The states of a
  counter are those satisfying \<open>wf\<close>: the constructor establishes it
  (\<open>wf_HyperLogLogPlusMinus\<close>) and \<^verbatim>\<open>add\<close>, \<^verbatim>\<open>merge\<close> and \<^verbatim>\<open>reset\<close> keep it.
\<close>

theorem add_commutes:
  assumes "wf this"
  shows "add (add this k1) k2 = add (add this k2) k1"
  using assms by (intro add_add_swap) (simp_all add: wf_def)

text \<open>
  C6. \<^verbatim>\<open>merge\<close> throws exactly when the two counters have different precisions, and the
  receiver is then unchanged.
\<close>

theorem merge_precision_mismatch:
  "(fst (merge this other) \<noteq> None \<longleftrightarrow> p this \<noteq> p other)
   \<and> (p this \<noteq> p other \<longrightarrow>
        merge this other = (Some (invalid_argument ''precisions must be equal''), this))"
  by (simp add: merge_def Let_def)

lemma merge_registers_in_range:
  assumes "wf this" "wf other" "p this = p other" "\<not> sparse other"
  shows "length (M other)
         = length (M (if sparse this then switchToNormalRepresentation this else this))"
  using assms unat_m_wf[of this] unat_m_wf[of other]
  by (simp add: switchToNormalRepresentation_eq length_M_wf)

lemma mix1: "murmurhash3_finalizer 5818379579481681391 = 1"
  by (simp add: murmurhash3_finalizer_def)

lemma mix2: "murmurhash3_finalizer 10388523180026391522 = 2"
  by (simp add: murmurhash3_finalizer_def)

lemma enc1: "encodeHashIn32Bit 12 1 = 79"
  by code_simp

lemma enc2: "encodeHashIn32Bit 12 2 = 77"
  by code_simp

section \<open>Concrete runs\<close>

lemma mixer_values:
  "murmurhash3_finalizer 1 = 0x3abf2a20650683e7"
  "murmurhash3_finalizer 2 = 0x0b5181c509f8d8ce"
  "murmurhash3_finalizer 3 = 0x47900468a8f01875"
  "murmurhash3_finalizer 4 = 0xd66ad737d54c5575"
  "murmurhash3_finalizer 5 = 0xe8b4b3b1c77c4573"
  by (simp_all add: murmurhash3_finalizer_def)

lemma index_rank_values:
  "get_index64 0x3abf2a20650683e7 4 = 3" "get_rank64 0x3abf2a20650683e7 4 = 1"
  "get_index64 0x0b5181c509f8d8ce 4 = 0" "get_rank64 0x0b5181c509f8d8ce 4 = 1"
  "get_index64 0x47900468a8f01875 4 = 4" "get_rank64 0x47900468a8f01875 4 = 2"
  "get_index64 0xd66ad737d54c5575 4 = 13" "get_rank64 0xd66ad737d54c5575 4 = 2"
  "get_index64 0xe8b4b3b1c77c4573 4 = 14" "get_rank64 0xe8b4b3b1c77c4573 4 = 1"
  by code_simp+

theorem promotion_equivalence_witness:
  "HyperLogLogPlusMinus 4 True murmurhash3_finalizer
     = Inr \<lparr>M = [], p = 4, m = 16, sparse = True, sparseList = {},
            bit_mixer = murmurhash3_finalizer\<rparr>
   \<and> HyperLogLogPlusMinus 4 False murmurhash3_finalizer
     = Inr \<lparr>M = replicate 16 0, p = 4, m = 16, sparse = False, sparseList = {},
            bit_mixer = murmurhash3_finalizer\<rparr>
   \<and> M (if sparse (add_many \<lparr>M = [], p = 4, m = 16, sparse = True, sparseList = {},
                        bit_mixer = murmurhash3_finalizer\<rparr> [1, 2, 3, 4, 5])
        then switchToNormalRepresentation
               (add_many \<lparr>M = [], p = 4, m = 16, sparse = True, sparseList = {},
                           bit_mixer = murmurhash3_finalizer\<rparr> [1, 2, 3, 4, 5])
        else add_many \<lparr>M = [], p = 4, m = 16, sparse = True, sparseList = {},
                        bit_mixer = murmurhash3_finalizer\<rparr> [1, 2, 3, 4, 5])
     = [1, 0, 0, 1, 2, 0, 0, 0, 0, 0, 0, 0, 0, 2, 1, 0]"
proof -
  have s: "HyperLogLogPlusMinus 4 True murmurhash3_finalizer
     = Inr \<lparr>M = [], p = 4, m = 16, sparse = True, sparseList = {},
            bit_mixer = murmurhash3_finalizer\<rparr>"
    by (simp add: HyperLogLogPlusMinus_def)
  have d: "HyperLogLogPlusMinus 4 False murmurhash3_finalizer
     = Inr \<lparr>M = replicate 16 0, p = 4, m = 16, sparse = False, sparseList = {},
            bit_mixer = murmurhash3_finalizer\<rparr>"
    by (simp add: HyperLogLogPlusMinus_def)
  have v: "M (add_many \<lparr>M = replicate 16 0, p = 4, m = 16, sparse = False, sparseList = {},
            bit_mixer = murmurhash3_finalizer\<rparr> [1, 2, 3, 4, 5])
           = [1, 0, 0, 1, 2, 0, 0, 0, 0, 0, 0, 0, 0, 2, 1, 0]"
    by code_simp
  from promotion_equivalence[OF s d, of "[1, 2, 3, 4, 5]"] s d v show ?thesis
    by (simp only:)
qed

lemma wf_example:
  "wf \<lparr>M = [], p = 4, m = 16, sparse = True, sparseList = {},
       bit_mixer = murmurhash3_finalizer\<rparr>"
  by (simp add: wf_def)

lemma enc_values:
  "encodeHashIn32Bit 4 0x3abf2a20650683e7 = 985606656"
  "encodeHashIn32Bit 4 0x0b5181c509f8d8ce = 189890944"
  "encodeHashIn32Bit 4 0x47900468a8f01875 = 1200620544"
  "encodeHashIn32Bit 4 0xd66ad737d54c5575 = 3597326080"
  "encodeHashIn32Bit 4 0xe8b4b3b1c77c4573 = 3904156544"
  by code_simp+

theorem add_commutes_witness:
  "wf \<lparr>M = [], p = 4, m = 16, sparse = True,
       sparseList = {985606656, 189890944, 1200620544, 3597326080},
       bit_mixer = murmurhash3_finalizer\<rparr>
   \<and> add (add \<lparr>M = [], p = 4, m = 16, sparse = True,
                  sparseList = {985606656, 189890944, 1200620544, 3597326080},
                  bit_mixer = murmurhash3_finalizer\<rparr> 5) 1
     = add (add \<lparr>M = [], p = 4, m = 16, sparse = True,
                  sparseList = {985606656, 189890944, 1200620544, 3597326080},
                  bit_mixer = murmurhash3_finalizer\<rparr> 1) 5
   \<and> \<not> sparse (add \<lparr>M = [], p = 4, m = 16, sparse = True,
                  sparseList = {985606656, 189890944, 1200620544, 3597326080},
                  bit_mixer = murmurhash3_finalizer\<rparr> 5)
   \<and> sparse (add \<lparr>M = [], p = 4, m = 16, sparse = True,
                  sparseList = {985606656, 189890944, 1200620544, 3597326080},
                  bit_mixer = murmurhash3_finalizer\<rparr> 1)"
proof -
  let ?s = "\<lparr>M = [], p = 4, m = 16, sparse = True,
       sparseList = {985606656, 189890944, 1200620544, 3597326080},
       bit_mixer = murmurhash3_finalizer\<rparr>"
  have w: "wf ?s" by (simp add: wf_def)
  have "\<not> sparse (add ?s 5)" "sparse (add ?s 1)"
    by (simp_all add: add_sparse mixer_values enc_values)
  with add_commutes[OF w, of 5 1] w show ?thesis by simp
qed

theorem merge_precision_mismatch_witness:
  "p \<lparr>M = [], p = 12, m = 4096, sparse = True, sparseList = {79},
       bit_mixer = murmurhash3_finalizer\<rparr>
     \<noteq> p \<lparr>M = [], p = 14, m = 16384, sparse = True, sparseList = {77},
          bit_mixer = murmurhash3_finalizer\<rparr>
   \<and> merge \<lparr>M = [], p = 12, m = 4096, sparse = True, sparseList = {79},
             bit_mixer = murmurhash3_finalizer\<rparr>
           \<lparr>M = [], p = 14, m = 16384, sparse = True, sparseList = {77},
             bit_mixer = murmurhash3_finalizer\<rparr>
     = (Some (invalid_argument ''precisions must be equal''),
        \<lparr>M = [], p = 12, m = 4096, sparse = True, sparseList = {79},
          bit_mixer = murmurhash3_finalizer\<rparr>)
   \<and> fst (merge \<lparr>M = [], p = 12, m = 4096, sparse = True, sparseList = {79},
                  bit_mixer = murmurhash3_finalizer\<rparr>
                \<lparr>M = [], p = 12, m = 4096, sparse = True, sparseList = {77},
                  bit_mixer = murmurhash3_finalizer\<rparr>) = None"
  using merge_precision_mismatch[of
     "\<lparr>M = [], p = 12, m = 4096, sparse = True, sparseList = {79},
                bit_mixer = murmurhash3_finalizer\<rparr>"
     "\<lparr>M = [], p = 14, m = 16384, sparse = True, sparseList = {77},
                bit_mixer = murmurhash3_finalizer\<rparr>"]
    merge_precision_mismatch[of
     "\<lparr>M = [], p = 12, m = 4096, sparse = True, sparseList = {79},
                bit_mixer = murmurhash3_finalizer\<rparr>"
     "\<lparr>M = [], p = 12, m = 4096, sparse = True, sparseList = {77},
                bit_mixer = murmurhash3_finalizer\<rparr>"]
  by simp

text \<open>
  C1, evaluated on the code. A fresh sparse counter of precision 12 with the default mixer
  receives two keys that the mixer maps to the hashes 1 and 2. Both encoded words, 79 and
  77, stay in the sparse list, although they have the same high 25 bits.
\<close>

theorem sparse_list_keeps_two_words_per_index:
  "HyperLogLogPlusMinus 12 True murmurhash3_finalizer
     = Inr \<lparr>M = [], p = 12, m = 4096, sparse = True, sparseList = {},
            bit_mixer = murmurhash3_finalizer\<rparr>
   \<and> add (add \<lparr>M = [], p = 12, m = 4096, sparse = True, sparseList = {},
                  bit_mixer = murmurhash3_finalizer\<rparr> 5818379579481681391)
         10388523180026391522
     = \<lparr>M = [], p = 12, m = 4096, sparse = True, sparseList = {77, 79},
          bit_mixer = murmurhash3_finalizer\<rparr>
   \<and> extractHighBits32 77 pPrime = extractHighBits32 79 pPrime
   \<and> (77 :: u32) \<noteq> 79"
  by (simp add: HyperLogLogPlusMinus_def add_sparse mix1 mix2 enc1 enc2 extractHighBits32_def
        unat_pPrime insert_commute)

text \<open>
  C2, evaluated on the code. The constant \<^verbatim>\<open>mPrime\<close> is \<open>2 ^ 24\<close>, not \<open>2 ^ pPrime\<close>.
\<close>

theorem mPrime_value: "mPrime = 2 ^ 24 \<and> mPrime \<noteq> 2 ^ unat pPrime"
  by (simp add: mPrime_def unat_pPrime)

lemma insert_hash_vec_collapses: "insert_hash_vec [79] 77 pPrime = [79]"
  by (simp add: extractHighBits32_def unat_pPrime)

section \<open>The estimator of Ertl at the boundaries\<close>

lemma ertlCardinality_estimate:
  "ertlCardinality this =
     (if sparse this
      then ertl_estimate (64 - unat pPrime) (unat mPrime)
             (sparseRegisterHistogram (p this) (sparseList this) (unat mPrime) (64 - unat pPrime))
      else ertl_estimate (64 - unat (p this)) (unat (m this))
             (registerHistogram (m this) (M this) (64 - unat (p this))))"
  by (simp add: ertlCardinality_def ertl_estimate_def Let_def)

lemma unat_mPrime: "unat mPrime = 2 ^ 24"
  by (simp add: mPrime_def unat_pPrime)

lemma ertl_denominator_loop_zero:
  assumes "\<And>k. 1 \<le> k \<Longrightarrow> k \<le> q \<Longrightarrow> C ! k = 0"
  shows "ertl_denominator_loop C q (Finite 0) = Finite 0"
proof -
  have f: "fold (\<lambda>k d. d_mul (d_add d (d_of_int (C ! k))) (Finite 0.5)) ks (Finite 0) = Finite 0"
    if "\<And>k. k \<in> set ks \<Longrightarrow> C ! k = 0" for ks
    using that by (induction ks) (simp_all add: d_of_int_def)
  show ?thesis
    unfolding ertl_denominator_loop_def
  proof (rule f)
    fix k assume "k \<in> set (rev [1..<q + 1])"
    then have "1 \<le> k" "k \<le> q" by auto
    then show "C ! k = 0" by (rule assms)
  qed
qed

lemma tau_boundary: "tau (Finite 0) = Some (Finite 0)" "tau (Finite 1) = Some (Finite 0)"
  by (simp_all add: tau_def)

lemma sigma_one: "sigma (Finite 1) = Some PInf"
  by (simp add: sigma_def)

lemma sigma_zero: "sigma (Finite 0) = Some (Finite 0)"
  by (simp add: sigma_def sigma_loop.simps[of "Finite 0" "Finite 0"])

lemma m_sq_alpha_inf_pos:
  assumes "0 < n"
  shows "d_mul (d_div (d_of_nat n) (d_mul (Finite 2) (d_log (Finite 2)))) (d_of_nat n)
         = Finite (real n / (2 * ln 2) * real n)"
    and "0 < real n / (2 * ln 2) * real n"
proof -
  have "0 < ln (2::real)" by (simp add: ln_gt_zero)
  then show "d_mul (d_div (d_of_nat n) (d_mul (Finite 2) (d_log (Finite 2)))) (d_of_nat n)
         = Finite (real n / (2 * ln 2) * real n)"
    by (simp add: d_of_nat_def)
  show "0 < real n / (2 * ln 2) * real n"
    using assms \<open>0 < ln 2\<close> by simp
qed

text \<open>The estimate on a histogram whose registers are all zero.\<close>

lemma ertl_all_zero_histogram:
  assumes n: "0 < n" and C0: "C ! 0 = int n" and Cq: "C ! (q + 1) = 0"
    and Ck: "\<And>k. 1 \<le> k \<Longrightarrow> k \<le> q \<Longrightarrow> C ! k = 0"
  shows "ertl_estimate q n C = Some (Inr 0)"
proof -
  have t: "tau (d_sub (Finite 1) (d_div (d_of_int (C ! (q + 1))) (d_of_nat n))) = Some (Finite 0)"
    using n Cq by (simp add: d_of_int_def d_of_nat_def d_sub_def tau_boundary)
  have l: "ertl_denominator_loop C q (d_mul (d_of_nat n) (Finite 0)) = Finite 0"
    using ertl_denominator_loop_zero[of q C] Ck by (simp add: d_of_nat_def)
  have s: "sigma (d_div (d_of_int (C ! 0)) (d_of_nat n)) = Some PInf"
    using n by (simp add: C0 d_of_int_def d_of_nat_def sigma_one)
  have e: "d_add (Finite 0) (d_mul (d_of_nat n) PInf) = PInf"
    using n by (simp add: d_of_nat_def d_inf_def)
  show ?thesis
    unfolding ertl_estimate_def t option.case Let_def l s e m_sq_alpha_inf_pos(1)[OF n]
    by simp
qed

text \<open>The estimate on a histogram whose registers are all saturated.\<close>

lemma ertl_all_saturated_histogram:
  assumes n: "0 < n" and C0: "C ! 0 = 0" and Cq: "C ! (q + 1) = int n"
    and Ck: "\<And>k. 1 \<le> k \<Longrightarrow> k \<le> q \<Longrightarrow> C ! k = 0"
  shows "ertl_estimate q n C = Some (Inl undefined_conversion)"
proof -
  have t: "tau (d_sub (Finite 1) (d_div (d_of_int (C ! (q + 1))) (d_of_nat n))) = Some (Finite 0)"
    using n Cq by (simp add: d_of_int_def d_of_nat_def d_sub_def tau_boundary)
  have l: "ertl_denominator_loop C q (d_mul (d_of_nat n) (Finite 0)) = Finite 0"
    using ertl_denominator_loop_zero[of q C] Ck by (simp add: d_of_nat_def)
  have s: "sigma (d_div (d_of_int (C ! 0)) (d_of_nat n)) = Some (Finite 0)"
    using n by (simp add: C0 d_of_int_def d_of_nat_def sigma_zero)
  have e: "d_add (Finite 0) (d_mul (d_of_nat n) (Finite 0)) = Finite 0"
    by (simp add: d_of_nat_def)
  show ?thesis
    unfolding ertl_estimate_def t option.case Let_def l s e m_sq_alpha_inf_pos(1)[OF n]
    using m_sq_alpha_inf_pos(2)[OF n] by (simp add: d_inf_def)
qed

lemma fold_histogram_constant:
  assumes "j < length C0" "\<And>i. i \<in> set xs \<Longrightarrow> g i = j"
  shows "fold (\<lambda>i C. C[g i := C ! g i + 1]) xs C0 = C0[j := C0 ! j + int (length xs)]"
  using assms
proof (induction xs arbitrary: C0)
  case Nil
  then show ?case by simp
next
  case (Cons x xs)
  have "fold (\<lambda>i C. C[g i := C ! g i + 1]) xs (C0[j := C0 ! j + 1])
        = (C0[j := C0 ! j + 1])[j := (C0[j := C0 ! j + 1]) ! j + int (length xs)]"
    using Cons.prems by (intro Cons.IH) simp_all
  then show ?case using Cons.prems by (simp add: add.assoc)
qed

lemma registerHistogram_replicate:
  assumes "unat r < q + 2"
  shows "registerHistogram m' (replicate (unat m') r) q
         = (replicate (q + 2) 0)[unat r := int (unat m')]"
proof -
  define Z :: "int list" where "Z = replicate (q + 2) 0"
  have Z: "length Z = q + 2" "Z ! unat r = 0"
    unfolding Z_def using assms by (simp_all only: length_replicate nth_replicate)
  have "fold (\<lambda>i C. C[unat (replicate (unat m') r ! i)
                        := C ! unat (replicate (unat m') r ! i) + 1]) [0..<unat m'] Z
        = Z[unat r := Z ! unat r + int (length [0..<unat m'])]"
    using assms by (intro fold_histogram_constant) (simp_all add: Z)
  then show ?thesis
    unfolding registerHistogram_def Z_def[symmetric] by (simp add: Z)
qed

lemma sparseRegisterHistogram_empty:
  "sparseRegisterHistogram prec {} n q = (replicate (q + 2) 0)[0 := int n]"
  by (simp add: sparseRegisterHistogram_def)

lemma histogram_one_bin:
  assumes "j \<le> q + 1"
  shows "(replicate (q + 2) (0::int))[j := v] ! j = v"
    and "\<And>k. k \<le> q + 1 \<Longrightarrow> k \<noteq> j \<Longrightarrow> (replicate (q + 2) (0::int))[j := v] ! k = 0"
proof -
  define Z :: "int list" where "Z = replicate (q + 2) 0"
  have Z: "length Z = q + 2" "\<And>i. i < q + 2 \<Longrightarrow> Z ! i = 0"
    unfolding Z_def by (simp_all only: length_replicate nth_replicate)
  show "(replicate (q + 2) (0::int))[j := v] ! j = v"
    unfolding Z_def[symmetric] using assms by (simp add: Z)
  show "(replicate (q + 2) (0::int))[j := v] ! k = 0" if "k \<le> q + 1" "k \<noteq> j" for k
    unfolding Z_def[symmetric] using assms that by (simp add: Z)
qed

lemma ertlCardinality_empty_sparse:
  assumes "sparse this" "sparseList this = {}"
  shows "ertlCardinality this = Some (Inr 0)"
proof -
  define q where "q = 64 - unat pPrime"
  define C where "C = (replicate (q + 2) 0)[0 := int (unat mPrime)]"
  have C0: "C ! 0 = int (unat mPrime)"
    unfolding C_def by (rule histogram_one_bin(1)) simp
  have Cq: "C ! (q + 1) = 0"
    unfolding C_def by (rule histogram_one_bin(2)) simp_all
  have Ck: "C ! k = 0" if "1 \<le> k" "k \<le> q" for k
    unfolding C_def using that by (intro histogram_one_bin(2)) simp_all
  note C = C0 Cq Ck
  have n: "0 < unat mPrime" by (simp add: unat_mPrime)
  have "ertl_estimate q (unat mPrime) C = Some (Inr 0)"
    by (rule ertl_all_zero_histogram[OF n C])
  then show ?thesis
    using assms
    by (simp only: ertlCardinality_estimate if_True sparseRegisterHistogram_empty q_def C_def)
qed

lemma cardinality_empty_sparse:
  assumes "sparse this" "sparseList this = {}"
  shows "cardinality rawEstimateData biasData this = Inr 0"
  using assms by (simp add: cardinality_def linearCounting_def d_of_nat_def unat_mPrime)

lemma ertlCardinality_all_zero:
  assumes w: "wf this" and d: "\<not> sparse this" and z: "M this = replicate (unat (m this)) 0"
  shows "ertlCardinality this = Some (Inr 0)"
proof -
  define q where "q = 64 - unat (p this)"
  define C where "C = (replicate (q + 2) 0)[0 := int (unat (m this))]"
  have h: "registerHistogram (m this) (M this) q = C"
    unfolding z C_def using registerHistogram_replicate[of 0 q "m this"] by simp
  have C0: "C ! 0 = int (unat (m this))"
    unfolding C_def by (rule histogram_one_bin(1)) simp
  have Cq: "C ! (q + 1) = 0"
    unfolding C_def by (rule histogram_one_bin(2)) simp_all
  have Ck: "C ! k = 0" if "1 \<le> k" "k \<le> q" for k
    unfolding C_def using that by (intro histogram_one_bin(2)) simp_all
  have n: "0 < unat (m this)" by (simp add: unat_m_wf[OF w])
  have "ertl_estimate q (unat (m this)) C = Some (Inr 0)"
    by (rule ertl_all_zero_histogram[OF n C0 Cq Ck])
  then show ?thesis
    using d by (simp only: ertlCardinality_estimate if_False h[unfolded q_def] q_def)
qed

lemma ertlCardinality_all_saturated:
  assumes w: "wf this" and d: "\<not> sparse this"
    and z: "M this = replicate (unat (m this)) (64 - p this + 1)"
  shows "ertlCardinality this = Some (Inl undefined_conversion)"
proof -
  define q where "q = 64 - unat (p this)"
  define C where "C = (replicate (q + 2) 0)[q + 1 := int (unat (m this))]"
  have pb: "4 \<le> unat (p this)" "unat (p this) \<le> 18"
    using w unat_prec_bounds[of "p this"] by (simp_all add: wf_def)
  have "p this \<le> 65" using pb by (simp add: word_le_nat_alt)
  then have "unat (65 - p this) = 65 - unat (p this)" by (simp add: unat_sub)
  then have r: "unat (64 - p this + 1) = q + 1"
    using pb by (simp add: q_def)
  have h: "registerHistogram (m this) (M this) q = C"
    unfolding z C_def using registerHistogram_replicate[of "64 - p this + 1" q "m this"]
    by (simp only: r)
  have C0: "C ! 0 = 0"
    unfolding C_def by (rule histogram_one_bin(2)) simp_all
  have Cq: "C ! (q + 1) = int (unat (m this))"
    unfolding C_def by (rule histogram_one_bin(1)) simp
  have Ck: "C ! k = 0" if "1 \<le> k" "k \<le> q" for k
    unfolding C_def using that by (intro histogram_one_bin(2)) simp_all
  have n: "0 < unat (m this)" by (simp add: unat_m_wf[OF w])
  have "ertl_estimate q (unat (m this)) C = Some (Inl undefined_conversion)"
    by (rule ertl_all_saturated_histogram[OF n C0 Cq Ck])
  then show ?thesis
    using d by (simp only: ertlCardinality_estimate if_False h[unfolded q_def] q_def)
qed

text \<open>
  C10. A sparse counter just constructed, with any precision the constructor accepts, has
  \<^verbatim>\<open>cardinality() = 0\<close> and \<^verbatim>\<open>ertlCardinality() = 0\<close>, and so has every counter after
  \<^verbatim>\<open>reset()\<close>.
\<close>

theorem empty_counter_estimates:
  "(HyperLogLogPlusMinus precision True mixer = Inr this \<longrightarrow>
      cardinality rawEstimateData biasData this = Inr 0 \<and> ertlCardinality this = Some (Inr 0))
   \<and> cardinality rawEstimateData biasData (reset that) = Inr 0
   \<and> ertlCardinality (reset that) = Some (Inr 0)"
proof -
  have "sparse this \<and> sparseList this = {}"
    if "HyperLogLogPlusMinus precision True mixer = Inr this"
    using that by (auto simp: HyperLogLogPlusMinus_def split: if_splits)
  moreover have "sparse (reset that) \<and> sparseList (reset that) = {}"
    by (simp add: reset_def)
  ultimately show ?thesis
    by (simp add: cardinality_empty_sparse ertlCardinality_empty_sparse)
qed

theorem empty_counter_estimates_witness:
  "HyperLogLogPlusMinus 12 True murmurhash3_finalizer
     = Inr \<lparr>M = [], p = 12, m = 4096, sparse = True, sparseList = {},
            bit_mixer = murmurhash3_finalizer\<rparr>
   \<and> cardinality no_tables no_tables
        \<lparr>M = [], p = 12, m = 4096, sparse = True, sparseList = {},
          bit_mixer = murmurhash3_finalizer\<rparr> = Inr 0
   \<and> ertlCardinality \<lparr>M = [], p = 12, m = 4096, sparse = True, sparseList = {},
          bit_mixer = murmurhash3_finalizer\<rparr> = Some (Inr 0)"
proof -
  have c: "HyperLogLogPlusMinus 12 True murmurhash3_finalizer
     = Inr \<lparr>M = [], p = 12, m = 4096, sparse = True, sparseList = {},
            bit_mixer = murmurhash3_finalizer\<rparr>"
    by (simp add: HyperLogLogPlusMinus_def)
  from empty_counter_estimates[of 12 murmurhash3_finalizer
      "\<lparr>M = [], p = 12, m = 4096, sparse = True, sparseList = {},
            bit_mixer = murmurhash3_finalizer\<rparr>" no_tables no_tables] c
  show ?thesis by blast
qed

lemma sparse_add_many: "\<not> sparse this \<Longrightarrow> \<not> sparse (add_many this ks)"
  unfolding add_many_def by (induction ks arbitrary: this) (simp_all add: add_dense)

lemma m_add_many: "\<not> sparse this \<Longrightarrow> m (add_many this ks) = m this"
  unfolding add_many_def by (induction ks arbitrary: this) (simp_all add: add_dense)

lemma p_add_many: "\<not> sparse this \<Longrightarrow> p (add_many this ks) = p this"
  unfolding add_many_def by (induction ks arbitrary: this) (simp_all add: add_dense)

text \<open>
  C8, evaluated on the code. A dense counter of precision 4 with the default mixer
  receives sixteen keys whose hashes are \<open>i \<cdot> 2 ^ 60\<close> for \<open>i = 0, \<dots>, 15\<close>. Every register
  is then \<open>61 = q + 1\<close>. The denominator of Ertl's estimate is \<open>0\<close>, the quotient is
  \<open>+\<infinity>\<close>, and its conversion to \<^verbatim>\<open>uint64_t\<close> is undefined. The same counter before the
  keys, all registers zero, has the estimate \<open>0\<close>.
\<close>

theorem ertl_saturated_registers_undefined:
  "HyperLogLogPlusMinus 4 False murmurhash3_finalizer
     = Inr \<lparr>M = replicate 16 0, p = 4, m = 16, sparse = False, sparseList = {},
            bit_mixer = murmurhash3_finalizer\<rparr>
   \<and> M (add_many \<lparr>M = replicate 16 0, p = 4, m = 16, sparse = False, sparseList = {},
            bit_mixer = murmurhash3_finalizer\<rparr>
          [18446744073709551615, 7407610334745251701, 14815220669490503403,
           9501361674384690714, 15660736032068161351, 10970995027679487804,
           555979277207313461, 7339471622345836480, 1401494638771588893,
           10057340951719931492, 3495245979501940346, 10902856313232858874,
           5588997321469544931, 12372489664466153565, 1957473916251597055,
           15714476985551405491])
     = replicate 16 61
   \<and> ertlCardinality
       (add_many \<lparr>M = replicate 16 0, p = 4, m = 16, sparse = False, sparseList = {},
            bit_mixer = murmurhash3_finalizer\<rparr>
          [18446744073709551615, 7407610334745251701, 14815220669490503403,
           9501361674384690714, 15660736032068161351, 10970995027679487804,
           555979277207313461, 7339471622345836480, 1401494638771588893,
           10057340951719931492, 3495245979501940346, 10902856313232858874,
           5588997321469544931, 12372489664466153565, 1957473916251597055,
           15714476985551405491])
     = Some (Inl undefined_conversion)
   \<and> ertlCardinality \<lparr>M = replicate 16 0, p = 4, m = 16, sparse = False, sparseList = {},
            bit_mixer = murmurhash3_finalizer\<rparr> = Some (Inr 0)"
proof -
  let ?d = "\<lparr>M = replicate 16 0, p = 4, m = 16, sparse = False, sparseList = {},
            bit_mixer = murmurhash3_finalizer\<rparr>"
  let ?ks = "[18446744073709551615, 7407610334745251701, 14815220669490503403,
           9501361674384690714, 15660736032068161351, 10970995027679487804,
           555979277207313461, 7339471622345836480, 1401494638771588893,
           10057340951719931492, 3495245979501940346, 10902856313232858874,
           5588997321469544931, 12372489664466153565, 1957473916251597055,
           15714476985551405491] :: u64 list"
  have c: "HyperLogLogPlusMinus 4 False murmurhash3_finalizer = Inr ?d"
    by (simp add: HyperLogLogPlusMinus_def)
  have w: "wf ?d" by (simp add: wf_def)
  have v: "M (add_many ?d ?ks) = replicate 16 61" by code_simp
  have w': "wf (add_many ?d ?ks)" using w by (rule wf_add_many)
  have d': "\<not> sparse (add_many ?d ?ks)" by (rule sparse_add_many) simp
  have "M (add_many ?d ?ks)
        = replicate (unat (m (add_many ?d ?ks))) (64 - p (add_many ?d ?ks) + 1)"
    by (simp add: v m_add_many p_add_many)
  then have s: "ertlCardinality (add_many ?d ?ks) = Some (Inl undefined_conversion)"
    by (rule ertlCardinality_all_saturated[OF w' d'])
  have z: "ertlCardinality ?d = Some (Inr 0)"
    by (rule ertlCardinality_all_zero[OF w]) simp_all
  from c v s z show ?thesis by (simp only:)
qed

section \<open>Linear counting in sparse mode\<close>

lemma linearCount_bounds:
  assumes "0 < v" "v \<le> n"
  shows "0 \<le> linearCount (real n) (real v)" "linearCount (real n) (real v) < real n * real n"
proof -
  have q: "1 \<le> real n / real v" using assms by simp
  then show "0 \<le> linearCount (real n) (real v)"
    using assms by (simp add: linearCount_def)
  have "ln (real n / real v) \<le> real n / real v - 1"
    using assms by (intro ln_le_minus_one) simp
  also have "\<dots> < real n / real v" by simp
  also have "\<dots> \<le> real n / 1"
    using assms by (intro divide_left_mono) simp_all
  finally have "ln (real n / real v) < real n" by simp
  then show "linearCount (real n) (real v) < real n * real n"
    using assms by (simp add: linearCount_def)
qed

lemma d_log_pos: "0 < x \<Longrightarrow> d_log (Finite x) = Finite (ln x)"
  by simp

lemma d_linearCount:
  assumes "0 < b" "b \<le> a"
  shows "d_mul (d_of_nat a) (d_log (d_div (d_of_nat a) (d_of_nat b)))
         = Finite (linearCount (real a) (real b))"
proof -
  have pos: "0 < real a / real b" using assms by (intro divide_pos_pos) simp_all
  have "d_div (d_of_nat a) (d_of_nat b) = Finite (real a / real b)"
    using assms by (simp add: d_of_nat_def)
  moreover have "d_log (Finite (real a / real b)) = Finite (ln (real a / real b))"
    by (rule d_log_pos[OF pos])
  ultimately show ?thesis by (simp only: d_of_nat_def d_mul.simps linearCount_def)
qed

lemma d_to_u64_floor: "0 \<le> x \<Longrightarrow> x < 2 ^ 64 \<Longrightarrow> d_to_u64 (Finite x) = Inr (word_of_int \<lfloor>x\<rfloor>)"
  by simp

lemma cardinality_sparse_floor:
  assumes s: "sparse this" and c: "card (sparseList this) < unat mPrime"
  shows "cardinality rawEstimateData biasData this
         = Inr (word_of_int \<lfloor>linearCount (real (unat mPrime))
                               (real (unat mPrime - card (sparseList this)))\<rfloor>)"
proof -
  define n where "n = card (sparseList this)"
  define v :: u32 where "v = mPrime - of_nat n"
  have n: "n < 2 ^ 24" using c by (simp add: n_def unat_mPrime)
  have un: "unat (of_nat n :: u32) = n" using n by (simp add: unat_of_nat take_bit_eq_mod)
  then have le: "(of_nat n :: u32) \<le> mPrime" using n by (simp add: word_le_nat_alt unat_mPrime)
  have uv: "unat v = unat mPrime - n" unfolding v_def using le by (simp add: unat_sub un)
  then have vle: "\<not> v > mPrime" by (simp add: word_less_nat_alt)
  have vpos: "0 < unat v" "unat v \<le> unat mPrime" using uv n by (simp_all add: unat_mPrime)
  have lc: "linearCounting mPrime v
            = Inr (Finite (linearCount (real (unat mPrime)) (real (unat v))))"
    unfolding linearCounting_def using vle by (simp only: if_False d_linearCount[OF vpos])
  have b: "0 \<le> linearCount (real (unat mPrime)) (real (unat v))"
    "linearCount (real (unat mPrime)) (real (unat v)) < 2 ^ 64"
  proof -
    show "0 \<le> linearCount (real (unat mPrime)) (real (unat v))"
      by (rule linearCount_bounds(1)[OF vpos])
    have "linearCount (real (unat mPrime)) (real (unat v)) < real (unat mPrime) * real (unat mPrime)"
      by (rule linearCount_bounds(2)[OF vpos])
    also have "\<dots> \<le> 2 ^ 64" by (simp add: unat_mPrime)
    finally show "linearCount (real (unat mPrime)) (real (unat v)) < 2 ^ 64" .
  qed
  have "cardinality rawEstimateData biasData this
        = (case linearCounting mPrime v of Inl e \<Rightarrow> Inl e | Inr d \<Rightarrow> d_to_u64 d)"
    unfolding cardinality_def v_def n_def using s by (simp only: if_True)
  also have "\<dots> = Inr (word_of_int \<lfloor>linearCount (real (unat mPrime)) (real (unat v))\<rfloor>)"
    unfolding lc sum.case by (rule d_to_u64_floor[OF b])
  finally show ?thesis by (simp only: uv n_def)
qed

text \<open>
  C4, amended. In sparse mode with \<open>0 < |S| < mPrime\<close>, \<^verbatim>\<open>cardinality()\<close> returns the
  linear-counting value \<open>linearCount (mPrime, mPrime - |S|)\<close> truncated to an integer,
  \<^verbatim>\<open>mPrime\<close> being the constant of the class.
\<close>

theorem sparse_cardinality_truncates:
  assumes "sparse this" "0 < card (sparseList this)" "card (sparseList this) < unat mPrime"
  shows "cardinality rawEstimateData biasData this
         = Inr (word_of_int \<lfloor>linearCount (real (unat mPrime))
                               (real (unat mPrime - card (sparseList this)))\<rfloor>)"
  using assms(1,3) by (rule cardinality_sparse_floor)

lemma exp_upper_numeric: "exp (19205 / 33554432 :: real) \<le> 131072 / 130997"
proof -
  let ?x = "19205 / 536870912 :: real"
  have "exp (19205 / 33554432 :: real) = exp ?x ^ 16"
    using exp_of_nat_mult[of 16 ?x] by simp
  also have "\<dots> \<le> (1 + ?x + ?x\<^sup>2) ^ 16"
    by (intro power_mono exp_bound) simp_all
  also have "\<dots> \<le> 131072 / 130997"
    by (simp add: power2_eq_square power_divide)
  finally show ?thesis .
qed

lemma exp_lower_numeric_24: "131072 / 130997 < exp (9603 / 16777216 :: real)"
proof -
  let ?y = "9603 / 16777216 :: real"
  have "131072 / 130997 < 1 + ?y + ?y\<^sup>2 / 2"
    by (simp add: power2_eq_square)
  also have "\<dots> \<le> exp ?y"
    by (intro exp_lower_Taylor_quadratic) simp
  finally show ?thesis .
qed

lemma exp_lower_numeric_25: "262144 / 262069 < exp (19203 / 67108864 :: real)"
proof -
  let ?y = "19203 / 67108864 :: real"
  have "262144 / 262069 < 1 + ?y + ?y\<^sup>2 / 2"
    by (simp add: power2_eq_square)
  also have "\<dots> \<le> exp ?y"
    by (intro exp_lower_Taylor_quadratic) simp
  finally show ?thesis .
qed

lemma linearCount_24_lower: "9602 + 1 / 2 \<le> linearCount 16777216 16767616"
proof -
  have p: "(0::real) < 131072 / 130997" by simp
  have "19205 / 33554432 \<le> ln (131072 / 130997 :: real)"
    unfolding ln_ge_iff[OF p] by (rule exp_upper_numeric)
  then show ?thesis by (simp add: linearCount_def)
qed

lemma linearCount_24_upper: "linearCount 16777216 16767616 < 9603"
proof -
  have p: "(0::real) < 131072 / 130997" by simp
  have "\<not> 9603 / 16777216 \<le> ln (131072 / 130997 :: real)"
    unfolding ln_ge_iff[OF p] not_le by (rule exp_lower_numeric_24)
  then show ?thesis by (simp add: linearCount_def)
qed

lemma linearCount_25_upper: "linearCount 33554432 33544832 < 9601 + 1 / 2"
proof -
  have p: "(0::real) < 262144 / 262069" by simp
  have "\<not> 19203 / 67108864 \<le> ln (262144 / 262069 :: real)"
    unfolding ln_ge_iff[OF p] not_le by (rule exp_lower_numeric_25)
  then show ?thesis by (simp add: linearCount_def)
qed

text \<open>
  The words of \<open>sparse_words_9600\<close> are encodings that \<^verbatim>\<open>add\<close> produces at precision 16.
\<close>

lemma sparse_words_9600_encodings:
  assumes n: "n < 9600" and h: "extractHighBits64 h pPrime = of_nat (512 * n + 1)"
  shows "encodeHashIn32Bit 16 h = of_nat (65536 * n + 128)"
proof -
  define W :: u64 where "W = of_nat (512 * n + 1)"
  have "unat W = (512 * n + 1) mod 2 ^ LENGTH(64)" unfolding W_def by (rule unat_of_nat)
  then have W: "unat W = 512 * n + 1" using n by simp
  have "unat (push_bit 7 W) = take_bit LENGTH(64) (push_bit 7 (unat W))"
    by (rule unsigned_push_bit_eq)
  then have P: "unat (push_bit 7 W) = 65536 * n + 128"
    using n by (simp add: W push_bit_eq_mult take_bit_eq_mod)
  have "unat (ucast (push_bit 7 W) :: u32) = take_bit LENGTH(32) (unat (push_bit 7 W))"
    by (rule unsigned_ucast_eq)
  then have "unat (ucast (push_bit 7 W) :: u32) = 65536 * n + 128"
    using n by (simp add: P take_bit_eq_mod)
  moreover have "extractHighBits64 h pPrime = W" unfolding W_def by (rule h)
  then have "idx0 h = ucast (push_bit 7 W)" by (simp add: idx0_def unat_pPrime)
  ultimately have u: "unat (idx0 h) = 65536 * n + 128" by (simp only:)
  have "unat (push_bit 16 (idx0 h)) = take_bit LENGTH(32) (push_bit 16 (unat (idx0 h)))"
    by (rule unsigned_push_bit_eq)
  also have "\<dots> = (2 ^ 23 + n * 2 ^ 32) mod 2 ^ 32"
    by (simp add: u push_bit_eq_mult take_bit_eq_mod)
  also have "\<dots> = 2 ^ 23 mod 2 ^ 32" by (rule mod_mult_self1)
  finally have "unat (push_bit 16 (idx0 h)) = 8388608" by simp
  then have "push_bit 16 (idx0 h) \<noteq> 0" by auto
  then have "encodeHashIn32Bit 16 h = idx0 h"
    by (simp add: encodeHashIn32Bit_idx0)
  also have "\<dots> = of_nat (unat (idx0 h))" by simp
  finally show ?thesis by (simp only: u)
qed

lemma card_sparse_words_9600: "card sparse_words_9600 = 9600"
proof -
  have "inj_on (\<lambda>n. word_of_nat (65536 * n + 128) :: u32) {0..<9600}"
  proof (rule inj_onI)
    fix x y :: nat
    assume x: "x \<in> {0..<9600}" and y: "y \<in> {0..<9600}"
      and e: "(word_of_nat (65536 * x + 128) :: u32) = word_of_nat (65536 * y + 128)"
    from e have "unat (word_of_nat (65536 * x + 128) :: u32)
                 = unat (word_of_nat (65536 * y + 128) :: u32)" by simp
    then have "(65536 * x + 128) mod 2 ^ LENGTH(32) = (65536 * y + 128) mod 2 ^ LENGTH(32)"
      by (simp only: unat_of_nat)
    moreover have "65536 * x + 128 < 2 ^ 32" "65536 * y + 128 < 2 ^ 32" using x y by simp_all
    ultimately show "x = y" by simp
  qed
  then have "card sparse_words_9600 = card {0..<9600 :: nat}"
    unfolding sparse_words_9600_def by (rule card_image)
  then show ?thesis by simp
qed

lemma word_of_int_neq:
  assumes "0 \<le> a" "a < b" "b < 2 ^ 64"
  shows "(word_of_int b :: u64) \<noteq> word_of_int a"
proof
  assume "(word_of_int b :: u64) = word_of_int a"
  then have "take_bit 64 b = take_bit 64 a" by (simp add: word_of_int_eq_iff)
  moreover have "take_bit 64 a = a" "take_bit 64 b = b"
    using assms by (simp_all add: take_bit_int_eq_self)
  ultimately show False using assms by simp
qed

lemma cardinality_sparse_counter_9600:
  "cardinality no_tables no_tables sparse_counter_9600 = Inr 9602"
proof -
  have c: "card (sparseList sparse_counter_9600) = 9600"
    by (simp add: sparse_counter_9600_def card_sparse_words_9600)
  have s: "sparse sparse_counter_9600" by (simp add: sparse_counter_9600_def)
  have "cardinality no_tables no_tables sparse_counter_9600
        = Inr (word_of_int \<lfloor>linearCount (real (unat mPrime))
                 (real (unat mPrime - card (sparseList sparse_counter_9600)))\<rfloor>)"
    using s by (rule cardinality_sparse_floor) (simp add: c unat_mPrime)
  then have "cardinality no_tables no_tables sparse_counter_9600
        = Inr (word_of_int \<lfloor>linearCount 16777216 16767616\<rfloor>)"
    by (simp add: c unat_mPrime)
  moreover have "\<lfloor>linearCount 16777216 16767616\<rfloor> = 9602"
    using linearCount_24_lower linearCount_24_upper by (intro floor_unique) simp_all
  ultimately show ?thesis by simp
qed

text \<open>
  C4 as stated fails on the sparse counter with 9600 words: the code returns 9602, the
  rounded linear-counting value over \<open>2 ^ 25\<close> bins is at most 9601, and rounding the
  value that the code truncates would give 9603.
\<close>

theorem sparse_cardinality_not_rounded:
  "sparse sparse_counter_9600
   \<and> 0 < card (sparseList sparse_counter_9600)
   \<and> card (sparseList sparse_counter_9600) \<le> 2 ^ 25
   \<and> cardinality no_tables no_tables sparse_counter_9600 = Inr 9602
   \<and> cardinality no_tables no_tables sparse_counter_9600
       \<noteq> Inr (word_of_int (round (linearCount (2 ^ 25)
                 (2 ^ 25 - real (card (sparseList sparse_counter_9600))))))
   \<and> round (linearCount (real (unat mPrime))
              (real (unat mPrime - card (sparseList sparse_counter_9600)))) = 9603"
proof -
  have c: "card (sparseList sparse_counter_9600) = 9600"
    by (simp add: sparse_counter_9600_def card_sparse_words_9600)
  have s: "sparse sparse_counter_9600" by (simp add: sparse_counter_9600_def)
  have "0 \<le> linearCount 33554432 33544832"
    using linearCount_bounds(1)[of 33544832 33554432] by simp
  then have r0: "0 \<le> round (linearCount 33554432 33544832)"
    by (simp add: round_def)
  have r1: "round (linearCount 33554432 33544832) < 9602"
    using linearCount_25_upper by (simp add: round_def floor_less_iff)
  have n: "(word_of_int 9602 :: u64) \<noteq> word_of_int (round (linearCount 33554432 33544832))"
    by (rule word_of_int_neq[OF r0 r1]) simp
  have r: "round (linearCount 16777216 16767616) = 9603"
    unfolding round_def using linearCount_24_lower linearCount_24_upper
    by (intro floor_unique) simp_all
  show ?thesis
    using n r by (simp add: s c cardinality_sparse_counter_9600 unat_mPrime)
qed

theorem sparse_cardinality_truncates_witness:
  "sparse sparse_counter_9600
   \<and> 0 < card (sparseList sparse_counter_9600)
   \<and> card (sparseList sparse_counter_9600) < unat mPrime
   \<and> cardinality no_tables no_tables sparse_counter_9600
       = Inr (word_of_int \<lfloor>linearCount (real (unat mPrime))
               (real (unat mPrime - card (sparseList sparse_counter_9600)))\<rfloor>)"
proof -
  have h: "sparse sparse_counter_9600" "0 < card (sparseList sparse_counter_9600)"
    "card (sparseList sparse_counter_9600) < unat mPrime"
    by (simp_all add: sparse_counter_9600_def card_sparse_words_9600 unat_mPrime)
  from sparse_cardinality_truncates[OF h, of no_tables no_tables] h show ?thesis by blast
qed

lemma cardinality_sparse_full:
  assumes "sparse this" "card (sparseList this) = unat mPrime"
  shows "cardinality rawEstimateData biasData this = Inl undefined_conversion"
proof -
  have "(of_nat (unat mPrime) :: u32) = mPrime" by simp
  then show ?thesis
    using assms by (simp add: cardinality_def linearCounting_def d_of_nat_def unat_mPrime d_inf_def)
qed

end
